theory Spec2Isabelle
  imports Complex_Main "HOL-Library.Word" "HOL-Library.Sublist"
begin

section \<open>cpass: the password generator and its entropy estimator\<close>

text \<open>
  A shallow embedding of package \<open>generator\<close> and of \<open>getRatingString\<close> from
  \<open>main.go\<close>. Go's \<open>byte\<close>, \<open>uint32\<close> and \<open>uint64\<close> are words of that width (their
  arithmetic wraps), \<open>big.Int\<close> is \<open>int\<close>, a \<open>[]byte\<close> is a list of bytes, and an
  \<open>error\<close> return is the left summand of a sum type.
\<close>

type_synonym byte = "8 word"
type_synonym uint32 = "32 word"
type_synonym uint64 = "64 word"

subsection \<open>Errors\<close>

text \<open>
  One constructor per error the package creates. \<open>ExceededMaxLength\<close> and
  \<open>CountsExceedLength\<close> are the two validation errors of \<open>NewGenerator\<close>,
  \<open>NonBaseExceedsLength\<close> is the defensive error of \<open>EntropyMin\<close>, \<open>AntiDeadlock\<close>
  is the "bug: anti-deadlock code reached" error, \<open>EntropySourceError\<close> is any
  error returned by \<open>crypto/rand\<close>, and \<open>RuntimePanic\<close> is a Go run-time panic
  (index out of range, division by zero, \<open>rand.Int\<close> with a bound \<open>\<le> 0\<close>).
  \<open>errors.Wrap\<close> keeps the cause, so wrapping is the identity here.
\<close>

datatype error =
    ExceededMaxLength
  | CountsExceedLength
  | NonBaseExceedsLength
  | AntiDeadlock
  | EntropySourceError
  | RuntimePanic

subsection \<open>Character sets\<close>

definition letterCharset :: "byte list" where
  "letterCharset = map of_char ''abcdefghijkmnpqrstuvwxyz''"

definition digitCharset :: "byte list" where
  "digitCharset = map of_char ''0123456789''"

definition specialCharset :: "byte list" where
  "specialCharset = map of_char ''~!@#$%^&*_+[]/?<>.''"

subsection \<open>The secure entropy source\<close>

text \<open>
  \<open>crypto/rand.Reader\<close> is the environment. It is a list of draws, consumed from
  the front: \<open>Some v\<close> is a draw that delivers the raw value \<open>v\<close>, \<open>None\<close> is a
  draw on which the reader fails, and a draw from the empty list fails as well.
  \<open>rand.Int(rand.Reader, max)\<close> panics when \<open>max \<le> 0\<close>; when \<open>max\<close> is 1 the only
  result is 0 and it returns it without reading; otherwise it consumes one draw
  and returns a value in \<open>[0, max)\<close>. \<open>rand.Read(b)\<close> consumes one draw per byte
  of \<open>b\<close> (none for an empty \<open>b\<close>, which cannot fail).
\<close>

type_synonym entropy = "nat option list"

definition rand_Int :: "nat \<Rightarrow> entropy \<Rightarrow> error + (nat \<times> entropy)" where
  "rand_Int mx src =
     (if mx = 0 then Inl RuntimePanic
      else if mx = 1 then Inr (0, src)
      else case src of
             [] \<Rightarrow> Inl EntropySourceError
           | None # rest \<Rightarrow> Inl EntropySourceError
           | Some v # rest \<Rightarrow> Inr (v mod mx, rest))"

fun rand_Read :: "nat \<Rightarrow> entropy \<Rightarrow> error + (byte list \<times> entropy)" where
  "rand_Read 0 src = Inr ([], src)"
| "rand_Read (Suc n) [] = Inl EntropySourceError"
| "rand_Read (Suc n) (None # rest) = Inl EntropySourceError"
| "rand_Read (Suc n) (Some v # rest) =
     (case rand_Read n rest of
        Inl e \<Rightarrow> Inl e
      | Inr (bs, rest') \<Rightarrow> Inr (of_nat v # bs, rest'))"

subsection \<open>Random characters\<close>

text \<open>
  \<open>sha512.Sum512\<close> is the standard library's; it is the parameter \<open>H\<close> of the
  model, so that every theorem holds for whatever function of the buffer it
  is. Its result type is \<open>[64]byte\<close>: \<open>len(h)\<close> is the constant 64 and both
  \<open>h[5]\<close> and \<open>h[pos]\<close> with \<open>pos < 64\<close> are in range.
\<close>

type_synonym digest = "byte list \<Rightarrow> byte list"

definition secureRandomByte :: "digest \<Rightarrow> entropy \<Rightarrow> error + (byte \<times> entropy)" where
  "secureRandomByte H src =
     (case rand_Int 1024 src of
        Inl e \<Rightarrow> Inl e
      | Inr (bufLen, src1) \<Rightarrow>
          (case rand_Read bufLen src1 of
             Inl e \<Rightarrow> Inl e
           | Inr (b, src2) \<Rightarrow>
               let h = H b;
                   pos = (h ! 5) mod 64
               in Inr (h ! unat pos, src2)))"

text \<open>
  \<open>charset[b%byte(len(charset))]\<close>: the length is truncated to a byte, and a
  remainder by zero panics.
\<close>

definition secureRandomChar :: "digest \<Rightarrow> byte list \<Rightarrow> entropy \<Rightarrow> error + (byte \<times> entropy)" where
  "secureRandomChar H charset src =
     (case secureRandomByte H src of
        Inl e \<Rightarrow> Inl e
      | Inr (b, src') \<Rightarrow>
          let n = (of_nat (length charset) :: byte)
          in if n = 0 then Inl RuntimePanic
             else Inr (charset ! unat (b mod n), src'))"

subsection \<open>The generator and its validation\<close>

record Generator =
  length_f :: uint32
  uppercaseCount :: uint32
  digitCount :: uint32
  specialCount :: uint32

definition NewGenerator :: "uint32 \<Rightarrow> uint32 \<Rightarrow> uint32 \<Rightarrow> uint32 \<Rightarrow> error + Generator" where
  "NewGenerator len uc dc sc =
     (let g = \<lparr>length_f = len, uppercaseCount = uc, digitCount = dc, specialCount = sc\<rparr>
      in if length_f g > 128 then Inl ExceededMaxLength
         else if uppercaseCount g + digitCount g + specialCount g > length_f g
              then Inl CountsExceedLength
         else Inr g)"

subsection \<open>Entropy estimation\<close>

text \<open>
  \<open>big.Int.Exp(x, y, m)\<close> with \<open>m = 0\<close>, the only way the package calls it:
  \<open>x ** y\<close>, and 1 when \<open>y \<le> 0\<close>. \<open>BitLen\<close> is the length of the absolute value
  in bits; the bit length of 0 is 0.
\<close>

definition big_Exp0 :: "int \<Rightarrow> int \<Rightarrow> int" where
  "big_Exp0 x y = (if y \<le> 0 then 1 else x ^ nat y)"

fun bitlen_nat :: "nat \<Rightarrow> nat" where
  "bitlen_nat n = (if n = 0 then 0 else Suc (bitlen_nat (n div 2)))"

declare bitlen_nat.simps [simp del]

definition BitLen :: "int \<Rightarrow> nat" where
  "BitLen x = bitlen_nat (nat \<bar>x\<bar>)"

definition EntropyMax :: "Generator \<Rightarrow> uint64" where
  "EntropyMax g =
     (let possibleChars = (1 + of_nat (length letterCharset) :: uint64);
          possibleChars = (if uppercaseCount g \<noteq> 0
                           then possibleChars + of_nat (length letterCharset)
                           else possibleChars);
          possibleChars = (if digitCount g \<noteq> 0
                           then possibleChars + of_nat (length digitCharset)
                           else possibleChars);
          possibleChars = (if specialCount g \<noteq> 0
                           then possibleChars + of_nat (length specialCharset)
                           else possibleChars);
          possibleCombinations =
            big_Exp0 (uint possibleChars) (uint (ucast (length_f g) :: uint64));
          possibleCombinations = possibleCombinations - 1
      in of_nat (BitLen possibleCombinations))"

definition addPossibleCombinationsFn :: "int \<Rightarrow> byte list \<Rightarrow> uint64 \<Rightarrow> int" where
  "addPossibleCombinationsFn possibleCombinations charset cnt =
     (let charsetLength = (1 + of_nat (length charset) :: uint64)
      in possibleCombinations * big_Exp0 (uint charsetLength) (uint cnt))"

definition EntropyMin :: "Generator \<Rightarrow> error + uint64" where
  "EntropyMin g =
     (let possibleCombinations = (1 :: int);
          nonBaseCount = uppercaseCount g + digitCount g + specialCount g
      in if nonBaseCount > length_f g then Inl NonBaseExceedsLength
         else
           let baseChars = length_f g - nonBaseCount;
               possibleCombinations =
                 addPossibleCombinationsFn possibleCombinations letterCharset (ucast baseChars);
               possibleCombinations =
                 addPossibleCombinationsFn possibleCombinations letterCharset
                   (ucast (uppercaseCount g));
               possibleCombinations =
                 addPossibleCombinationsFn possibleCombinations digitCharset
                   (ucast (digitCount g));
               possibleCombinations =
                 addPossibleCombinationsFn possibleCombinations specialCharset
                   (ucast (specialCount g));
               possibleCombinations = possibleCombinations - 1
           in Inr (of_nat (BitLen possibleCombinations)))"

text \<open>
  \<open>main\<close> averages the two estimates in \<open>float64\<close> and rates the average.
  Both estimates are far below \<open>2 ^ 52\<close>, where \<open>float64\<close> holds every integer
  and every half of an integer exactly, and a comparison of a finite \<open>float64\<close>
  with an integer constant is exact; the rationals therefore compute the same
  values.
\<close>

definition entropyAvg :: "uint64 \<Rightarrow> uint64 \<Rightarrow> rat" where
  "entropyAvg entropyMax entropyMin = (of_nat (unat entropyMax) + of_nat (unat entropyMin)) / 2"

definition getRatingString :: "rat \<Rightarrow> string" where
  "getRatingString entropyBits =
     (if entropyBits \<le> 32 then ''Very Poor''
      else if entropyBits \<le> 48 then ''Poor''
      else if entropyBits \<le> 72 then ''Weak''
      else if entropyBits \<le> 96 then ''Good''
      else if entropyBits \<le> 120 then ''Excellent''
      else ''Overkill'')"

subsection \<open>Generation\<close>

text \<open>
  The buffer is mutated in place, and it is lost when a method returns an
  error. So that the buffer can be spoken of at every point of a run, each
  method that mutates the buffer returns a run: next to its outcome (what the
  method of the source returns, its results or its error) the states it has
  passed, oldest first. A state is the buffer and the entropy not yet read; it
  is recorded at the head of each iteration of the method's outer loop and
  at the loop's exit, so every buffer a method holds is in its run.
\<close>

type_synonym state = "byte list \<times> entropy"
type_synonym run = "state list \<times> (error + state)"

definition after :: "state \<Rightarrow> run \<Rightarrow> run" where
  "after s r = (s # fst r, snd r)"

text \<open>
  \<open>generateBase\<close>: \<open>make([]byte, g.length)\<close> is zero-filled, and the loop stores
  one random letter per index. The counter is a \<open>uint32\<close> below \<open>g.length\<close>.
\<close>

function generateBase_loop ::
  "digest \<Rightarrow> Generator \<Rightarrow> uint32 \<Rightarrow> byte list \<Rightarrow> entropy \<Rightarrow> run" where
  "generateBase_loop H g i ret src =
     (if i < length_f g then
        (case secureRandomChar H letterCharset src of
           Inl e \<Rightarrow> ([(ret, src)], Inl e)
         | Inr (b, src') \<Rightarrow>
             if unat i < length ret
             then after (ret, src) (generateBase_loop H g (i + 1) (ret[unat i := b]) src')
             else ([(ret, src)], Inl RuntimePanic))
      else ([(ret, src)], Inr (ret, src)))"
  by pat_completeness auto
termination
proof (relation "measure (\<lambda>(H, g, i, ret, src). unat (length_f g) - unat i)")
  fix g :: Generator and i :: uint32
  assume "i < length_f g"
  then have "unat (length_f g) - unat (i + 1) < unat (length_f g) - unat i"
    by unat_arith
  then show "((H, g, i + 1, ret[unat i := b], src'), (H, g, i, ret, src))
      \<in> measure (\<lambda>(H, g, i, ret, src). unat (length_f g) - unat i)"
    for H :: digest and ret b and src src' :: entropy
    by simp
qed simp

definition generateBase :: "digest \<Rightarrow> Generator \<Rightarrow> entropy \<Rightarrow> run" where
  "generateBase H g src = generateBase_loop H g 0 (replicate (unat (length_f g)) 0) src"

text \<open>
  \<open>strings.Contains(letterCharset, string(char))\<close>: converting a byte to a string
  goes through a rune, so a byte of 128 or more becomes its two-byte UTF-8
  encoding; \<open>Contains\<close> then looks for that string as a substring.
\<close>

definition string_of_byte :: "byte \<Rightarrow> byte list" where
  "string_of_byte c =
     (if c < 128 then [c]
      else [192 + drop_bit 6 c, 128 + take_bit 6 c])"

fun strings_Contains :: "byte list \<Rightarrow> byte list \<Rightarrow> bool" where
  "strings_Contains [] substr = (substr = [])"
| "strings_Contains (x # xs) substr =
     (take (length substr) (x # xs) = substr \<or> strings_Contains xs substr)"

text \<open>
  The inner loop \<open>for ii := 0; ii < 100000 && !ok; ii++\<close> of
  \<open>seekNonBaseLetterAndApply\<close>, with its variables \<open>ii\<close>, \<open>ok\<close> and the buffer.
  The closure \<open>applyFn\<close> may draw from the entropy source. The loop stores into
  the buffer once at most, in its last iteration, so the buffer it is given
  and the buffer it returns are all the buffers it holds.
\<close>

type_synonym applyFn = "byte \<Rightarrow> entropy \<Rightarrow> error + (byte \<times> entropy)"

function seek_attempts ::
  "Generator \<Rightarrow> applyFn \<Rightarrow> nat \<Rightarrow> bool \<Rightarrow> byte list \<Rightarrow> entropy
     \<Rightarrow> error + (bool \<times> byte list \<times> entropy)" where
  "seek_attempts g applyFn ii ok ptr src =
     (if ii < 100000 \<and> \<not> ok then
        (case rand_Int (unat (ucast (length_f g) :: uint64)) src of
           Inl e \<Rightarrow> Inl e
         | Inr (pos, src1) \<Rightarrow>
             if length ptr \<le> pos then Inl RuntimePanic
             else
               let char = ptr ! pos
               in if \<not> strings_Contains letterCharset (string_of_byte char)
                  then seek_attempts g applyFn (ii + 1) ok ptr src1
                  else (case applyFn char src1 of
                          Inl e \<Rightarrow> Inl e
                        | Inr (newChar, src2) \<Rightarrow>
                            seek_attempts g applyFn (ii + 1) True (ptr[pos := newChar]) src2))
      else Inr (ok, ptr, src))"
  by pat_completeness auto
termination
  by (relation "measure (\<lambda>(g, applyFn, ii, ok, ptr, src). 100000 - ii)") auto

text \<open>
  The outer loop of \<open>seekNonBaseLetterAndApply\<close>, one iteration per
  substitution.
\<close>

function seek_loop ::
  "Generator \<Rightarrow> applyFn \<Rightarrow> uint32 \<Rightarrow> uint32 \<Rightarrow> byte list \<Rightarrow> entropy \<Rightarrow> run" where
  "seek_loop g applyFn i cnt ptr src =
     (if i < cnt then
        (case seek_attempts g applyFn 0 False ptr src of
           Inl e \<Rightarrow> ([(ptr, src)], Inl e)
         | Inr (ok, ptr', src') \<Rightarrow>
             if \<not> ok then ([(ptr, src)], Inl AntiDeadlock)
             else after (ptr, src) (seek_loop g applyFn (i + 1) cnt ptr' src'))
      else ([(ptr, src)], Inr (ptr, src)))"
  by pat_completeness auto
termination
proof (relation "measure (\<lambda>(g, applyFn, i, cnt, ptr, src). unat cnt - unat i)")
  fix i cnt :: uint32
  assume "i < cnt"
  then have "unat cnt - unat (i + 1) < unat cnt - unat i"
    by unat_arith
  then show "((g, applyFn, i + 1, cnt, ptr', src'), (g, applyFn, i, cnt, ptr, src))
      \<in> measure (\<lambda>(g, applyFn, i, cnt, ptr, src). unat cnt - unat i)"
    for g :: Generator and applyFn :: applyFn and ptr ptr' and src src' :: entropy
    by simp
qed simp

definition seekNonBaseLetterAndApply ::
  "Generator \<Rightarrow> byte list \<Rightarrow> uint32 \<Rightarrow> applyFn \<Rightarrow> entropy \<Rightarrow> run" where
  "seekNonBaseLetterAndApply g ptr cnt applyFn src = seek_loop g applyFn 0 cnt ptr src"

text \<open>
  \<open>unicode.ToUpper(rune(b))\<close> for a byte \<open>b\<close>, that is for a code point below
  256: the ASCII branch of the standard library's function, and the rows of
  its case table for Latin-1 (U+00B5 maps to U+039C and U+00FF to U+0178).
  \<open>byte(...)\<close> keeps the low eight bits.
\<close>

definition unicode_ToUpper :: "byte \<Rightarrow> nat" where
  "unicode_ToUpper b =
     (let r = unat b
      in if r \<le> 127 then (if 97 \<le> r \<and> r \<le> 122 then r - 32 else r)
         else if r = 181 then 924
         else if (224 \<le> r \<and> r \<le> 246) \<or> (248 \<le> r \<and> r \<le> 254) then r - 32
         else if r = 255 then 376
         else r)"

text \<open>
  The three closures handed to \<open>seekNonBaseLetterAndApply\<close>, named after the
  method that creates them, and the three methods.
\<close>

definition applyUppercase_fn :: applyFn where
  "applyUppercase_fn b s = Inr (of_nat (unicode_ToUpper b), s)"

definition applyDigits_fn :: "digest \<Rightarrow> applyFn" where
  "applyDigits_fn H b s =
     (case secureRandomChar H digitCharset s of
        Inl e \<Rightarrow> Inl e
      | Inr (c, s') \<Rightarrow> Inr (c, s'))"

definition applySpecial_fn :: "digest \<Rightarrow> applyFn" where
  "applySpecial_fn H b s =
     (case secureRandomChar H specialCharset s of
        Inl e \<Rightarrow> Inl e
      | Inr (c, s') \<Rightarrow> Inr (c, s'))"

definition applyUppercase :: "Generator \<Rightarrow> byte list \<Rightarrow> entropy \<Rightarrow> run" where
  "applyUppercase g ptr src =
     seekNonBaseLetterAndApply g ptr (uppercaseCount g) applyUppercase_fn src"

definition applyDigits :: "digest \<Rightarrow> Generator \<Rightarrow> byte list \<Rightarrow> entropy \<Rightarrow> run" where
  "applyDigits H g ptr src =
     seekNonBaseLetterAndApply g ptr (digitCount g) (applyDigits_fn H) src"

definition applySpecial :: "digest \<Rightarrow> Generator \<Rightarrow> byte list \<Rightarrow> entropy \<Rightarrow> run" where
  "applySpecial H g ptr src =
     seekNonBaseLetterAndApply g ptr (specialCount g) (applySpecial_fn H) src"

text \<open>
  \<open>Generate\<close> calls the four methods in turn on the same buffer and returns at
  the first error. \<open>Generate_run\<close> is its run, the states of the four methods
  one after the other; \<open>Generate\<close> is what the method returns.
\<close>

definition Generate_run :: "digest \<Rightarrow> Generator \<Rightarrow> entropy \<Rightarrow> run" where
  "Generate_run H g src =
     (case generateBase H g src of
        (h0, Inl e) \<Rightarrow> (h0, Inl e)
      | (h0, Inr (b, s1)) \<Rightarrow>
          (case applyUppercase g b s1 of
             (h1, Inl e) \<Rightarrow> (h0 @ h1, Inl e)
           | (h1, Inr (b, s2)) \<Rightarrow>
               (case applyDigits H g b s2 of
                  (h2, Inl e) \<Rightarrow> (h0 @ h1 @ h2, Inl e)
                | (h2, Inr (b, s3)) \<Rightarrow>
                    (case applySpecial H g b s3 of
                       (h3, Inl e) \<Rightarrow> (h0 @ h1 @ h2 @ h3, Inl e)
                     | (h3, Inr (b, s4)) \<Rightarrow> (h0 @ h1 @ h2 @ h3, Inr (b, s4))))))"

definition Generate :: "digest \<Rightarrow> Generator \<Rightarrow> entropy \<Rightarrow> error + (byte list \<times> entropy)" where
  "Generate H g src = snd (Generate_run H g src)"

text \<open>The loops are unfolded explicitly in the proofs.\<close>

declare generateBase_loop.simps [simp del] seek_attempts.simps [simp del] seek_loop.simps [simp del]

subsection \<open>Vocabulary of the specification\<close>

text \<open>
  A config is valid when its length is at most 128 and the three counts add up,
  as natural numbers, to at most the length. \<open>counts_fit\<close> is the second half
  alone.
\<close>

definition counts_fit :: "Generator \<Rightarrow> bool" where
  "counts_fit g \<longleftrightarrow>
     unat (uppercaseCount g) + unat (digitCount g) + unat (specialCount g) \<le> unat (length_f g)"

definition valid_config :: "Generator \<Rightarrow> bool" where
  "valid_config g \<longleftrightarrow> unat (length_f g) \<le> 128 \<and> counts_fit g"

text \<open>
  The bit length of an integer is the least number of bits that hold its
  absolute value.
\<close>

definition bit_length :: "int \<Rightarrow> nat" where
  "bit_length x = (LEAST n. \<bar>x\<bar> < 2 ^ n)"

text \<open>
  The pool of the maximum estimate: the empty-slot placeholder, the 24
  lowercase letters, and 24, 10 and 18 more when uppercase letters, digits and
  specials are requested.
\<close>

definition pool :: "Generator \<Rightarrow> nat" where
  "pool g = 1 + 24 + (if 0 < uppercaseCount g then 24 else 0)
              + (if 0 < digitCount g then 10 else 0)
              + (if 0 < specialCount g then 18 else 0)"

text \<open>The combinations of the minimum estimate, with the base count of the specification.\<close>

definition baseCount :: "Generator \<Rightarrow> nat" where
  "baseCount g =
     unat (length_f g) - (unat (uppercaseCount g) + unat (digitCount g) + unat (specialCount g))"

definition minCombinations :: "Generator \<Rightarrow> int" where
  "minCombinations g =
     (1 + 24) ^ baseCount g * (1 + 24) ^ unat (uppercaseCount g)
       * (1 + 10) ^ unat (digitCount g) * (1 + 18) ^ unat (specialCount g) - 1"

text \<open>
  The four character classes. The uppercase class is the case-folded lowercase
  charset. A byte is in exactly one class when exactly one of the four
  memberships holds; \<open>classCount\<close> counts the bytes of a class in a buffer.
\<close>

definition uppercaseCharset :: "byte list" where
  "uppercaseCharset = map of_char ''ABCDEFGHIJKMNPQRSTUVWXYZ''"

definition isLowercase :: "byte \<Rightarrow> bool" where
  "isLowercase c \<longleftrightarrow> c \<in> set letterCharset"

definition isUppercase :: "byte \<Rightarrow> bool" where
  "isUppercase c \<longleftrightarrow> c \<in> set uppercaseCharset"

definition isDigit :: "byte \<Rightarrow> bool" where
  "isDigit c \<longleftrightarrow> c \<in> set digitCharset"

definition isSpecial :: "byte \<Rightarrow> bool" where
  "isSpecial c \<longleftrightarrow> c \<in> set specialCharset"

definition inOneClass :: "byte \<Rightarrow> bool" where
  "inOneClass c \<longleftrightarrow>
     (of_bool (isLowercase c) + of_bool (isUppercase c) + of_bool (isDigit c)
        + of_bool (isSpecial c) = (1 :: nat))"

definition classCount :: "(byte \<Rightarrow> bool) \<Rightarrow> byte list \<Rightarrow> nat" where
  "classCount P b = length (filter P b)"

text \<open>The ambiguous letters: l, o, L and O.\<close>

definition ambiguous :: "byte \<Rightarrow> bool" where
  "ambiguous c \<longleftrightarrow> c \<in> set (map of_char ''loLO'')"

definition no_ambiguous :: "byte list \<Rightarrow> bool" where
  "no_ambiguous b \<longleftrightarrow> list_all (\<lambda>c. \<not> ambiguous c) b"

text \<open>
  The next \<open>n\<close> position draws \<open>rand.Int(rand.Reader, length)\<close> from an entropy
  source all miss a buffer when each of them is delivered and lands on a byte
  that is not a base letter. A substitution is starved when the 100000 position
  draws it is allowed all miss its buffer.
\<close>

fun position_misses :: "Generator \<Rightarrow> byte list \<Rightarrow> nat \<Rightarrow> entropy \<Rightarrow> bool" where
  "position_misses g ptr 0 src = True"
| "position_misses g ptr (Suc n) src =
     (case rand_Int (unat (length_f g)) src of
        Inl e \<Rightarrow> False
      | Inr (pos, src') \<Rightarrow> \<not> isLowercase (ptr ! pos) \<and> position_misses g ptr n src')"

definition starved :: "Generator \<Rightarrow> byte list \<Rightarrow> entropy \<Rightarrow> bool" where
  "starved g ptr src \<longleftrightarrow> position_misses g ptr 100000 src"

text \<open>
  A digest all of whose 64 bytes are \<open>b\<close>: with it the whitened byte is \<open>b\<close>
  whatever buffer was drawn. It instantiates the parameter \<open>H\<close> in closed
  statements.
\<close>

definition constDigest :: "byte \<Rightarrow> digest" where
  "constDigest b m = replicate 64 b"

text \<open>
  What a pass relies on in its closure: it never reports the anti-deadlock
  error, it consumes the entropy source from the front, and on a base letter it
  returns a byte of the class \<open>Q\<close> of the pass.
\<close>

definition closure_ok :: "applyFn \<Rightarrow> (byte \<Rightarrow> bool) \<Rightarrow> bool" where
  "closure_ok f Q \<longleftrightarrow>
     (\<forall>x s. f x s \<noteq> Inl AntiDeadlock)
     \<and> (\<forall>x s c s'. f x s = Inr (c, s') \<longrightarrow> suffix s' s)
     \<and> (\<forall>x s c s'. isLowercase x \<longrightarrow> f x s = Inr (c, s') \<longrightarrow> Q c)"

text \<open>
  \<open>substituted Q k ptr ptr'\<close>: the buffer \<open>ptr'\<close> results from \<open>ptr\<close> by \<open>k\<close>
  successive substitutions, each replacing a byte that is a base letter at
  that moment by a byte of class \<open>Q\<close>.
\<close>

inductive substituted :: "(byte \<Rightarrow> bool) \<Rightarrow> nat \<Rightarrow> byte list \<Rightarrow> byte list \<Rightarrow> bool"
  for Q :: "byte \<Rightarrow> bool" where
  substituted_0: "substituted Q 0 ptr ptr"
| substituted_Suc:
    "pos < length ptr \<Longrightarrow> isLowercase (ptr ! pos) \<Longrightarrow> Q c
       \<Longrightarrow> substituted Q k (ptr[pos := c]) ptr' \<Longrightarrow> substituted Q (Suc k) ptr ptr'"

text \<open>
  The number of values of the whitened byte on which \<open>secureRandomChar\<close> returns
  the character \<open>c\<close> of a charset; with the digest \<open>constDigest b\<close> and a buffer
  length draw of 0, the whitened byte is \<open>b\<close>.
\<close>

definition byteValues :: "byte list" where
  "byteValues = map of_nat [0..<256]"

definition producers :: "byte list \<Rightarrow> byte \<Rightarrow> nat" where
  "producers charset c =
     length (filter (\<lambda>b. secureRandomChar (constDigest b) charset [Some 0] = Inr (c, []))
               byteValues)"

section \<open>Properties\<close>

subsection \<open>Auxiliary facts: character sets, words, bit lengths\<close>

lemma charset_lengths:
  "length letterCharset = 24" "length digitCharset = 10" "length specialCharset = 18"
  by (simp_all add: letterCharset_def digitCharset_def specialCharset_def)

lemma uint_ucast_32_64: "uint (ucast (w :: uint32) :: uint64) = uint w"
  by (simp add: uint_up_ucast is_up)

lemma unat_ucast_32_64: "unat (ucast (w :: uint32) :: uint64) = unat w"
  by (metis uint_ucast_32_64 unat_eq_nat_uint)

lemma bitlen_nat_less: "n < 2 ^ bitlen_nat n"
proof (induction n rule: bitlen_nat.induct)
  case (1 n)
  show ?case
  proof (cases "n = 0")
    case True
    then show ?thesis by (simp add: bitlen_nat.simps)
  next
    case False
    with 1 have "n div 2 < 2 ^ bitlen_nat (n div 2)" by simp
    then have "n < 2 * 2 ^ bitlen_nat (n div 2)" by linarith
    with False show ?thesis by (subst bitlen_nat.simps) simp
  qed
qed

lemma bitlen_nat_le: "n < 2 ^ k \<Longrightarrow> bitlen_nat n \<le> k"
proof (induction n arbitrary: k rule: bitlen_nat.induct)
  case (1 n)
  show ?case
  proof (cases "n = 0")
    case True
    then show ?thesis by (simp add: bitlen_nat.simps)
  next
    case False
    with 1(2) obtain j where k: "k = Suc j" by (cases k) auto
    with 1(2) have "n div 2 < 2 ^ j" by simp
    with 1(1) False have "bitlen_nat (n div 2) \<le> j" by simp
    with False k show ?thesis by (subst bitlen_nat.simps) simp
  qed
qed

lemma bitlen_nat_Least: "bitlen_nat n = (LEAST k. n < 2 ^ k)"
  by (rule Least_equality [symmetric]) (auto intro: bitlen_nat_less bitlen_nat_le)

lemma bitlen_nat_mono: "m \<le> n \<Longrightarrow> bitlen_nat m \<le> bitlen_nat n"
  by (rule bitlen_nat_le) (use bitlen_nat_less [of n] in linarith)

lemma BitLen_bit_length: "BitLen x = bit_length x"
proof -
  have "(\<bar>x\<bar> < 2 ^ k) = (nat \<bar>x\<bar> < 2 ^ k)" for k
    by (simp add: nat_less_iff)
  then show ?thesis
    by (simp add: BitLen_def bit_length_def bitlen_nat_Least)
qed

lemma BitLen_mono: "0 \<le> x \<Longrightarrow> x \<le> y \<Longrightarrow> BitLen x \<le> BitLen y"
  by (simp add: BitLen_def bitlen_nat_mono nat_mono)

lemma BitLen_pow_le:
  assumes "0 < x" "x \<le> 2 ^ k"
  shows "BitLen (x - 1) \<le> k"
proof -
  have "nat \<bar>x - 1\<bar> < 2 ^ k"
    using assms by (simp add: nat_less_iff)
  then show ?thesis
    by (simp add: BitLen_def bitlen_nat_le)
qed

text \<open>The conversion \<open>uint64(x.BitLen())\<close> loses nothing when \<open>x < 2 ^ k\<close> and \<open>k < 2 ^ 64\<close>.\<close>

lemma unat_of_nat_BitLen:
  assumes "0 < x" "x \<le> 2 ^ k" "k < 2 ^ 64"
  shows "unat (of_nat (BitLen (x - 1)) :: uint64) = BitLen (x - 1)"
proof -
  have "BitLen (x - 1) < 2 ^ 64"
    using BitLen_pow_le [OF assms(1,2)] assms(3) by linarith
  then show ?thesis
    by (simp add: unat_of_nat take_bit_nat_eq_self)
qed

lemma big_Exp0_uint: "big_Exp0 x (uint w) = x ^ unat w"
  by (simp add: big_Exp0_def)
     (metis nat_uint_eq power_0 unat_eq_zero uint_0_iff unsigned_0 nat_zero_as_int)

subsection \<open>The maximum estimate\<close>

lemma pool_bounds: "25 \<le> pool g" "pool g \<le> 77"
  unfolding pool_def by (simp_all split: if_splits)

lemma EntropyMax_eq:
  "EntropyMax g = of_nat (BitLen (int (pool g) ^ unat (length_f g) - 1))"
proof -
  have nz: "(0 < w) = (w \<noteq> 0)" for w :: uint32
    by (simp add: word_greater_zero_iff)
  show ?thesis
    unfolding EntropyMax_def Let_def charset_lengths big_Exp0_uint unat_ucast_32_64 pool_def nz
    by (cases "uppercaseCount g = 0"; cases "digitCount g = 0"; cases "specialCount g = 0")
       simp_all
qed

lemma pool_pow_le: "int (pool g) ^ n \<le> 2 ^ (7 * n)"
proof -
  have "int (pool g) ^ n \<le> 128 ^ n"
    using pool_bounds(2) [of g] by (intro power_mono) simp_all
  also have "(128 :: int) ^ n = 2 ^ (7 * n)"
    by (simp add: power_mult)
  finally show ?thesis .
qed

lemma EntropyMax_unat:
  "unat (EntropyMax g) = bit_length (int (pool g) ^ unat (length_f g) - 1)"
proof -
  have "7 * unat (length_f g) < 2 ^ 64"
    using unsigned_less [of "length_f g", where 'a = nat] by simp
  moreover have "0 < int (pool g) ^ unat (length_f g)"
    using pool_bounds(1) [of g] by simp
  ultimately show ?thesis
    using unat_of_nat_BitLen [OF _ pool_pow_le]
    by (simp add: EntropyMax_eq BitLen_bit_length)
qed

text \<open>
  Claim C3. For every valid config, \<open>EntropyMax\<close> returns the bit length of the
  integer \<open>pool ^ length - 1\<close>, where the pool is 1 + 24, plus 24 when
  \<open>uppercaseCount > 0\<close>, plus 10 when \<open>digitCount > 0\<close>, plus 18 when
  \<open>specialCount > 0\<close>.
\<close>

theorem EntropyMax_bit_length:
  assumes "valid_config g"
  shows "unat (EntropyMax g) = bit_length (int (pool g) ^ unat (length_f g) - 1)"
  by (rule EntropyMax_unat)

theorem EntropyMax_bit_length_witness:
  "valid_config \<lparr>length_f = 20, uppercaseCount = 0, digitCount = 3, specialCount = 0\<rparr>
   \<and> unat (EntropyMax \<lparr>length_f = 20, uppercaseCount = 0, digitCount = 3, specialCount = 0\<rparr>)
       = bit_length (int (pool \<lparr>length_f = 20, uppercaseCount = 0, digitCount = 3,
                                  specialCount = 0\<rparr>)
                       ^ unat (length_f \<lparr>length_f = 20, uppercaseCount = 0, digitCount = 3,
                                          specialCount = 0 :: uint32\<rparr>) - 1)"
proof -
  have h: "valid_config \<lparr>length_f = 20, uppercaseCount = 0, digitCount = 3, specialCount = 0\<rparr>"
    by (simp add: valid_config_def counts_fit_def)
  from h EntropyMax_bit_length [OF h] show ?thesis
    by (rule conjI)
qed

subsection \<open>The minimum estimate\<close>

lemma counts_fit_words:
  assumes "counts_fit g"
  shows "unat (uppercaseCount g + digitCount g + specialCount g) =
           unat (uppercaseCount g) + unat (digitCount g) + unat (specialCount g)"
    and "\<not> length_f g < uppercaseCount g + digitCount g + specialCount g"
    and "unat (length_f g - (uppercaseCount g + digitCount g + specialCount g)) = baseCount g"
proof -
  have "unat (uppercaseCount g) + unat (digitCount g) + unat (specialCount g) < 2 ^ 32"
    using assms unsigned_less [of "length_f g", where 'a = nat]
    by (simp add: counts_fit_def)
  then show sum: "unat (uppercaseCount g + digitCount g + specialCount g) =
           unat (uppercaseCount g) + unat (digitCount g) + unat (specialCount g)"
    by (simp add: unat_word_ariths)
  with assms show le: "\<not> length_f g < uppercaseCount g + digitCount g + specialCount g"
    by (simp add: counts_fit_def word_less_nat_alt)
  from le have "uppercaseCount g + digitCount g + specialCount g \<le> length_f g"
    by simp
  then show "unat (length_f g - (uppercaseCount g + digitCount g + specialCount g)) = baseCount g"
    by (simp add: unat_sub sum baseCount_def)
qed

lemma EntropyMin_eq:
  assumes "counts_fit g"
  shows "EntropyMin g = Inr (of_nat (BitLen (minCombinations g)))"
  using counts_fit_words [OF assms]
  unfolding EntropyMin_def Let_def addPossibleCombinationsFn_def charset_lengths big_Exp0_uint
    unat_ucast_32_64 minCombinations_def
  by simp

lemma minCombinations_le:
  assumes "counts_fit g" and "\<And>b. b \<in> {25, 11, 19 :: int} \<Longrightarrow> b \<le> c"
  shows "minCombinations g + 1 \<le> c ^ unat (length_f g)"
proof -
  have len: "unat (length_f g) =
      baseCount g + unat (uppercaseCount g) + unat (digitCount g) + unat (specialCount g)"
    using assms(1) by (simp add: counts_fit_def baseCount_def)
  have "(25 :: int) ^ baseCount g \<le> c ^ baseCount g"
    and "(25 :: int) ^ unat (uppercaseCount g) \<le> c ^ unat (uppercaseCount g)"
    and "(11 :: int) ^ unat (digitCount g) \<le> c ^ unat (digitCount g)"
    and "(19 :: int) ^ unat (specialCount g) \<le> c ^ unat (specialCount g)"
    using assms(2) by (simp_all add: power_mono)
  moreover have "0 \<le> c"
    using assms(2) [of 25] by simp
  ultimately have "(25 :: int) ^ baseCount g * 25 ^ unat (uppercaseCount g)
       * 11 ^ unat (digitCount g) * 19 ^ unat (specialCount g)
     \<le> c ^ baseCount g * c ^ unat (uppercaseCount g)
       * c ^ unat (digitCount g) * c ^ unat (specialCount g)"
    by (intro mult_mono) simp_all
  then show ?thesis
    by (simp add: minCombinations_def len power_add)
qed

lemma minCombinations_nonneg: "0 \<le> minCombinations g"
proof -
  have "(0 :: int) < 25 ^ baseCount g * 25 ^ unat (uppercaseCount g)
       * 11 ^ unat (digitCount g) * 19 ^ unat (specialCount g)"
    by simp
  then show ?thesis
    unfolding minCombinations_def by simp
qed

lemma EntropyMin_unat:
  assumes "counts_fit g"
  shows "\<exists>v. EntropyMin g = Inr v \<and> unat v = bit_length (minCombinations g)"
proof -
  have "minCombinations g + 1 \<le> 32 ^ unat (length_f g)"
    using assms by (rule minCombinations_le) auto
  also have "(32 :: int) ^ unat (length_f g) = 2 ^ (5 * unat (length_f g))"
    by (simp add: power_mult)
  finally have le: "minCombinations g + 1 \<le> 2 ^ (5 * unat (length_f g))" .
  have "5 * unat (length_f g) < 2 ^ 64"
    using unsigned_less [of "length_f g", where 'a = nat] by simp
  with le minCombinations_nonneg [of g]
  have "unat (of_nat (BitLen (minCombinations g + 1 - 1)) :: uint64)
          = BitLen (minCombinations g + 1 - 1)"
    by (intro unat_of_nat_BitLen) simp_all
  then show ?thesis
    by (simp add: EntropyMin_eq [OF assms] BitLen_bit_length)
qed

text \<open>
  Claim C4. For every config whose three counts add up to at most the length,
  \<open>EntropyMin\<close> returns, without error, the bit length of
  \<open>(1+24) ^ baseCount * (1+24) ^ uppercaseCount * (1+10) ^ digitCount *
  (1+18) ^ specialCount - 1\<close>, where \<open>baseCount\<close> is the length minus the sum of
  the counts.
\<close>

theorem EntropyMin_bit_length:
  assumes "counts_fit g"
  shows "\<exists>v. EntropyMin g = Inr v \<and> unat v = bit_length (minCombinations g)"
  using assms by (rule EntropyMin_unat)

theorem EntropyMin_bit_length_witness:
  "counts_fit \<lparr>length_f = 200, uppercaseCount = 50, digitCount = 0, specialCount = 7\<rparr>
   \<and> (\<exists>v. EntropyMin \<lparr>length_f = 200, uppercaseCount = 50, digitCount = 0, specialCount = 7\<rparr>
              = Inr v
          \<and> unat v = bit_length (minCombinations \<lparr>length_f = 200, uppercaseCount = 50,
                                    digitCount = 0, specialCount = 7\<rparr>))"
proof -
  have h: "counts_fit \<lparr>length_f = 200, uppercaseCount = 50, digitCount = 0, specialCount = 7\<rparr>"
    by (simp add: counts_fit_def)
  from h EntropyMin_bit_length [OF h] show ?thesis
    by (rule conjI)
qed

subsection \<open>The two estimates compared\<close>

text \<open>
  Claim C6. For every valid config, the value \<open>EntropyMax\<close> returns is greater
  than or equal to the value \<open>EntropyMin\<close> returns.
\<close>

theorem EntropyMax_ge_EntropyMin:
  assumes "valid_config g"
  shows "\<exists>m. EntropyMin g = Inr m \<and> m \<le> EntropyMax g"
proof -
  from assms have fit: "counts_fit g"
    by (simp add: valid_config_def)
  from EntropyMin_unat [OF fit] obtain m
    where m: "EntropyMin g = Inr m" "unat m = bit_length (minCombinations g)"
    by blast
  have "minCombinations g + 1 \<le> int (pool g) ^ unat (length_f g)"
    using fit pool_bounds(1) [of g] by (intro minCombinations_le) auto
  then have "BitLen (minCombinations g) \<le> BitLen (int (pool g) ^ unat (length_f g) - 1)"
    using minCombinations_nonneg [of g] by (intro BitLen_mono) simp_all
  then have "unat m \<le> unat (EntropyMax g)"
    by (simp add: m(2) EntropyMax_unat BitLen_bit_length)
  with m(1) show ?thesis
    by (simp add: word_le_nat_alt)
qed

theorem EntropyMax_ge_EntropyMin_witness:
  "valid_config \<lparr>length_f = 128, uppercaseCount = 0, digitCount = 0, specialCount = 128\<rparr>
   \<and> (\<exists>m. EntropyMin \<lparr>length_f = 128, uppercaseCount = 0, digitCount = 0, specialCount = 128\<rparr>
              = Inr m
          \<and> m \<le> EntropyMax \<lparr>length_f = 128, uppercaseCount = 0, digitCount = 0,
                                specialCount = 128\<rparr>)"
proof -
  have h: "valid_config \<lparr>length_f = 128, uppercaseCount = 0, digitCount = 0, specialCount = 128\<rparr>"
    by (simp add: valid_config_def counts_fit_def)
  from h EntropyMax_ge_EntropyMin [OF h] show ?thesis
    by (rule conjI)
qed

subsection \<open>The worked example\<close>

text \<open>
  Claim C5. For the config with length 14, two uppercase letters, one digit and
  one special character, \<open>EntropyMax\<close> returns 88, \<open>EntropyMin\<close> returns 64, the
  realistic entropy (their average) is 76, and the rating of 76 bits is "Good".
\<close>

theorem worked_example:
  "EntropyMax \<lparr>length_f = 14, uppercaseCount = 2, digitCount = 1, specialCount = 1\<rparr> = 88
   \<and> EntropyMin \<lparr>length_f = 14, uppercaseCount = 2, digitCount = 1, specialCount = 1\<rparr> = Inr 64
   \<and> entropyAvg 88 64 = 76
   \<and> getRatingString 76 = ''Good''"
proof (intro conjI)
  show "EntropyMax \<lparr>length_f = 14, uppercaseCount = 2, digitCount = 1, specialCount = 1\<rparr> = 88"
    by (simp add: EntropyMax_def charset_lengths big_Exp0_def BitLen_def bitlen_nat.simps)
  show "EntropyMin \<lparr>length_f = 14, uppercaseCount = 2, digitCount = 1, specialCount = 1\<rparr> = Inr 64"
    by (simp add: EntropyMin_def addPossibleCombinationsFn_def charset_lengths big_Exp0_def
        BitLen_def bitlen_nat.simps)
  show "entropyAvg 88 64 = 76"
    by (simp add: entropyAvg_def)
  show "getRatingString 76 = ''Good''"
    by (simp add: getRatingString_def)
qed

subsection \<open>Validation and the defensive check\<close>

lemma NewGenerator_Inr_iff:
  "NewGenerator len uc dc sc = Inr g \<longleftrightarrow>
     g = \<lparr>length_f = len, uppercaseCount = uc, digitCount = dc, specialCount = sc\<rparr>
     \<and> len \<le> 128 \<and> uc + dc + sc \<le> len"
  by (auto simp: NewGenerator_def Let_def)

text \<open>
  Claim C9. On every generator that \<open>NewGenerator\<close> returns, \<open>EntropyMin\<close> does
  not return its defensive error (it returns a value): its check recomputes the
  wrapping sum that the validation has accepted.
\<close>

theorem EntropyMin_no_error_after_NewGenerator:
  assumes "NewGenerator len uc dc sc = Inr g"
  shows "\<exists>v. EntropyMin g = Inr v"
  using assms
  by (auto simp: NewGenerator_def EntropyMin_def Let_def split: if_splits)

theorem EntropyMin_no_error_after_NewGenerator_witness:
  "NewGenerator 31 4 0 9
     = Inr \<lparr>length_f = 31, uppercaseCount = 4, digitCount = 0, specialCount = 9\<rparr>
   \<and> (\<exists>v. EntropyMin \<lparr>length_f = 31, uppercaseCount = 4, digitCount = 0,
                        specialCount = 9\<rparr> = Inr v)"
proof -
  have h: "NewGenerator 31 4 0 9
     = Inr \<lparr>length_f = 31, uppercaseCount = 4, digitCount = 0, specialCount = 9\<rparr>"
    by (simp add: NewGenerator_def)
  from h EntropyMin_no_error_after_NewGenerator [OF h] show ?thesis
    by (rule conjI)
qed

subsection \<open>Character classes\<close>

lemma letterCharset_list:
  "letterCharset = [97, 98, 99, 100, 101, 102, 103, 104, 105, 106, 107, 109, 110, 112, 113,
     114, 115, 116, 117, 118, 119, 120, 121, 122]"
  by (simp add: letterCharset_def)

lemma uppercaseCharset_list:
  "uppercaseCharset = [65, 66, 67, 68, 69, 70, 71, 72, 73, 74, 75, 77, 78, 80, 81,
     82, 83, 84, 85, 86, 87, 88, 89, 90]"
  by (simp add: uppercaseCharset_def)

lemma digitCharset_list: "digitCharset = [48, 49, 50, 51, 52, 53, 54, 55, 56, 57]"
  by (simp add: digitCharset_def)

lemma specialCharset_list:
  "specialCharset = [126, 33, 64, 35, 36, 37, 94, 38, 42, 95, 43, 91, 93, 47, 63, 60, 62, 46]"
  by (simp add: specialCharset_def)

lemmas class_defs = isLowercase_def isUppercase_def isDigit_def isSpecial_def ambiguous_def
    letterCharset_list uppercaseCharset_list digitCharset_list specialCharset_list

lemma lowercase_all:
  "list_all (\<lambda>c. \<not> isUppercase c \<and> \<not> isDigit c \<and> \<not> isSpecial c \<and> \<not> ambiguous c \<and> c < 128
       \<and> isUppercase (of_nat (unicode_ToUpper c))) letterCharset"
  unfolding class_defs by (simp add: unicode_ToUpper_def)

lemma uppercase_all:
  "list_all (\<lambda>c. \<not> isLowercase c \<and> \<not> isDigit c \<and> \<not> isSpecial c \<and> \<not> ambiguous c) uppercaseCharset"
  unfolding class_defs by simp

lemma digit_all:
  "list_all (\<lambda>c. \<not> isLowercase c \<and> \<not> isUppercase c \<and> \<not> isSpecial c \<and> \<not> ambiguous c) digitCharset"
  unfolding class_defs by simp

lemma special_all:
  "list_all (\<lambda>c. \<not> isLowercase c \<and> \<not> isUppercase c \<and> \<not> isDigit c \<and> \<not> ambiguous c) specialCharset"
  unfolding class_defs by simp

lemma isLowercase_classes:
  assumes "isLowercase c"
  shows "\<not> isUppercase c" "\<not> isDigit c" "\<not> isSpecial c" "\<not> ambiguous c" "c < 128"
    "isUppercase (of_nat (unicode_ToUpper c))"
  using assms lowercase_all unfolding list_all_iff isLowercase_def by blast+

lemma isUppercase_classes:
  assumes "isUppercase c"
  shows "\<not> isLowercase c" "\<not> isDigit c" "\<not> isSpecial c" "\<not> ambiguous c"
  using assms uppercase_all unfolding list_all_iff isUppercase_def by blast+

lemma isDigit_classes:
  assumes "isDigit c"
  shows "\<not> isLowercase c" "\<not> isUppercase c" "\<not> isSpecial c" "\<not> ambiguous c"
  using assms digit_all unfolding list_all_iff isDigit_def by blast+

lemma isSpecial_classes:
  assumes "isSpecial c"
  shows "\<not> isLowercase c" "\<not> isUppercase c" "\<not> isDigit c" "\<not> ambiguous c"
  using assms special_all unfolding list_all_iff isSpecial_def by blast+


lemma strings_Contains_single: "strings_Contains s [c] \<longleftrightarrow> c \<in> set s"
  by (induction s) auto

lemma strings_Contains_head: "strings_Contains s (a # t) \<Longrightarrow> a \<in> set s"
  by (induction s) auto

lemma Contains_letterCharset:
  "strings_Contains letterCharset (string_of_byte c) \<longleftrightarrow> isLowercase c"
proof (cases "c < 128")
  case True
  then show ?thesis
    by (simp add: string_of_byte_def strings_Contains_single isLowercase_def)
next
  case False
  then have "128 \<le> unat c"
    by (simp add: word_less_nat_alt)
  moreover have "unat c < 256"
    using unsigned_less [of c, where 'a = nat] by simp
  moreover have "unat (drop_bit 6 c) = unat c div 64"
    by (simp add: drop_bit_eq_div unat_div)
  ultimately have "unat (drop_bit 6 c) = 2 \<or> unat (drop_bit 6 c) = 3"
    by linarith
  then have "drop_bit 6 c = 2 \<or> drop_bit 6 c = 3"
    by (simp add: word_unat_eq_iff)
  then have "\<not> (192 + drop_bit 6 c < 128)"
    by auto
  then have "\<not> isLowercase (192 + drop_bit 6 c)"
    using isLowercase_classes(5) by blast
  then have "\<not> strings_Contains letterCharset (string_of_byte c)"
    using False strings_Contains_head [of letterCharset "192 + drop_bit 6 c"]
    by (auto simp: string_of_byte_def isLowercase_def)
  moreover have "\<not> isLowercase c"
    using False isLowercase_classes(5) by blast
  ultimately show ?thesis by simp
qed

lemma secureRandomChar_mem:
  assumes "secureRandomChar H charset src = Inr (c, src')"
  shows "c \<in> set charset"
proof -
  from assms have "\<exists>b :: byte. (of_nat (length charset) :: byte) \<noteq> 0
      \<and> c = charset ! unat (b mod of_nat (length charset))"
    by (auto simp: secureRandomChar_def Let_def split: sum.splits if_splits)
  then obtain b :: byte where n: "(of_nat (length charset) :: byte) \<noteq> 0"
    and c: "c = charset ! unat (b mod of_nat (length charset))"
    by blast
  have "unat (b mod of_nat (length charset)) < unat (of_nat (length charset) :: byte)"
    using n by (simp add: unat_mod unat_gt_0)
  also have "\<dots> \<le> length charset"
    by (simp add: unat_of_nat take_bit_eq_mod)
  finally show ?thesis
    using c by simp
qed


lemma rand_Int_Inr:
  assumes "rand_Int mx src = Inr (v, src')"
  shows "v < mx" and "suffix src' src"
  using assms
  by (auto simp: rand_Int_def suffix_def split: if_splits list.splits option.splits)

lemma rand_Read_suffix:
  "rand_Read n src = Inr (bs, src') \<Longrightarrow> suffix src' src"
proof (induction n src arbitrary: bs src' rule: rand_Read.induct)
  case (4 n v rest)
  then show ?case
    by (auto split: sum.splits intro: suffix_ConsI)
qed simp_all

lemma rand_Int_error: "rand_Int mx src \<noteq> Inl AntiDeadlock"
  by (auto simp: rand_Int_def split: list.splits option.splits)

lemma rand_Read_error: "rand_Read n src \<noteq> Inl AntiDeadlock"
  by (induction n src rule: rand_Read.induct) (auto split: sum.splits)

lemma secureRandomByte_suffix:
  "secureRandomByte H src = Inr (b, src') \<Longrightarrow> suffix src' src"
  by (auto simp: secureRandomByte_def Let_def split: sum.splits
      dest!: rand_Int_Inr(2) rand_Read_suffix)

lemma secureRandomByte_error: "secureRandomByte H src \<noteq> Inl AntiDeadlock"
  using rand_Int_error rand_Read_error
  by (auto simp: secureRandomByte_def Let_def split: sum.splits)

lemma secureRandomChar_suffix:
  "secureRandomChar H charset src = Inr (c, src') \<Longrightarrow> suffix src' src"
  by (auto simp: secureRandomChar_def Let_def split: sum.splits if_splits
      dest: secureRandomByte_suffix)

lemma secureRandomChar_error: "secureRandomChar H charset src \<noteq> Inl AntiDeadlock"
  using secureRandomByte_error
  by (auto simp: secureRandomChar_def Let_def split: sum.splits)


lemma closure_okD:
  assumes "closure_ok f Q"
  shows "f x s \<noteq> Inl AntiDeadlock"
    and "f x s = Inr (c, s') \<Longrightarrow> suffix s' s"
    and "isLowercase x \<Longrightarrow> f x s = Inr (c, s') \<Longrightarrow> Q c"
  using assms unfolding closure_ok_def by blast+

lemma closure_ok_upper: "closure_ok applyUppercase_fn isUppercase"
  by (auto simp: closure_ok_def applyUppercase_fn_def isLowercase_classes(6))

lemma closure_ok_digit: "closure_ok (applyDigits_fn H) isDigit"
  using secureRandomChar_error [of H digitCharset]
  by (auto simp: closure_ok_def applyDigits_fn_def isDigit_def split: sum.splits
      dest: secureRandomChar_suffix secureRandomChar_mem)

lemma closure_ok_special: "closure_ok (applySpecial_fn H) isSpecial"
  using secureRandomChar_error [of H specialCharset]
  by (auto simp: closure_ok_def applySpecial_fn_def isSpecial_def split: sum.splits
      dest: secureRandomChar_suffix secureRandomChar_mem)

lemma seek_attempts_done:
  "seek_attempts g f ii True ptr src = Inr (True, ptr, src)"
  by (simp add: seek_attempts.simps)

lemma seek_attempts_Inr:
  assumes "seek_attempts g f ii ok ptr src = Inr (ok', ptr', src')"
  shows "(ok' = ok \<and> ptr' = ptr)
         \<or> (\<not> ok \<and> ok' \<and> (\<exists>pos s1 s2 c. pos < length ptr \<and> isLowercase (ptr ! pos)
                \<and> f (ptr ! pos) s1 = Inr (c, s2) \<and> suffix s1 src \<and> src' = s2
                \<and> ptr' = ptr[pos := c]))"
  using assms
proof (induction g f ii ok ptr src rule: seek_attempts.induct)
  case (1 g f ii ok ptr src)
  show ?case
  proof (cases "ii < 100000 \<and> \<not> ok")
    case False
    with "1.prems" show ?thesis
      by (simp add: seek_attempts.simps)
  next
    case True
    with "1.prems" obtain pos src1 where
      r: "rand_Int (unat (ucast (length_f g) :: uint64)) src = Inr (pos, src1)"
      by (subst (asm) seek_attempts.simps) (auto split: sum.splits)
    with True "1.prems" have pos: "pos < length ptr"
      by (subst (asm) seek_attempts.simps) (auto split: if_splits)
    show ?thesis
    proof (cases "isLowercase (ptr ! pos)")
      case False
      with True r pos "1.prems"
      have "seek_attempts g f (ii + 1) ok ptr src1 = Inr (ok', ptr', src')"
        by (subst (asm) seek_attempts.simps) (simp add: Contains_letterCharset)
      with "1.IH"(1) [OF True r refl _ refl] pos False
      have "(ok' = ok \<and> ptr' = ptr)
         \<or> (\<not> ok \<and> ok' \<and> (\<exists>pos s1 s2 c. pos < length ptr \<and> isLowercase (ptr ! pos)
                \<and> f (ptr ! pos) s1 = Inr (c, s2) \<and> suffix s1 src1 \<and> src' = s2
                \<and> ptr' = ptr[pos := c]))"
        by (simp add: Contains_letterCharset)
      then consider "ok' = ok \<and> ptr' = ptr"
        | p s1 s2 c where "\<not> ok" "ok'" "p < length ptr" "isLowercase (ptr ! p)"
            "f (ptr ! p) s1 = Inr (c, s2)" "suffix s1 src1" "src' = s2" "ptr' = ptr[p := c]"
        by blast
      then show ?thesis
      proof cases
        case 1
        then show ?thesis by simp
      next
        case 2
        from 2(6) rand_Int_Inr(2) [OF r] have "suffix s1 src"
          by (rule suffix_order.trans)
        with 2 show ?thesis by blast
      qed
    next
      case low: True
      with True r pos "1.prems" obtain c s2 where
        f: "f (ptr ! pos) src1 = Inr (c, s2)"
        by (subst (asm) seek_attempts.simps)
           (auto simp: Contains_letterCharset split: sum.splits)
      with True r pos low "1.prems"
      have "ok' = True \<and> ptr' = ptr[pos := c] \<and> src' = s2"
        by (subst (asm) seek_attempts.simps)
           (simp add: Contains_letterCharset seek_attempts_done)
      with True pos low f rand_Int_Inr(2) [OF r] show ?thesis
        by blast
    qed
  qed
qed


lemma uint32_succ: "(i :: uint32) < n \<Longrightarrow> unat (i + 1) = Suc (unat i)"
  by unat_arith

lemma uint32_remaining:
  "(i :: uint32) < n \<Longrightarrow> unat n - unat i = Suc (unat n - unat (i + 1))"
  by unat_arith

lemma uint32_done: "\<not> (i :: uint32) < n \<Longrightarrow> unat n - unat i = 0"
  by unat_arith

lemma seek_attempts_error:
  assumes "closure_ok f Q"
  shows "seek_attempts g f ii ok ptr src \<noteq> Inl AntiDeadlock"
  using assms
proof (induction g f ii ok ptr src rule: seek_attempts.induct)
  case (1 g f ii ok ptr src)
  note assms = "1.prems"
  show ?case
  proof
    assume a: "seek_attempts g f ii ok ptr src = Inl AntiDeadlock"
    then have c: "ii < 100000 \<and> \<not> ok"
      by (subst (asm) seek_attempts.simps) (simp split: if_splits)
    with a rand_Int_error obtain pos src1 where
      r: "rand_Int (unat (ucast (length_f g) :: uint64)) src = Inr (pos, src1)"
      by (subst (asm) seek_attempts.simps) (auto split: sum.splits)
    with c a have pos: "\<not> length ptr \<le> pos"
      by (subst (asm) seek_attempts.simps) (auto split: if_splits)
    show False
    proof (cases "strings_Contains letterCharset (string_of_byte (ptr ! pos))")
      case False
      with c r pos a have "seek_attempts g f (ii + 1) ok ptr src1 = Inl AntiDeadlock"
        by (subst (asm) seek_attempts.simps) simp
      with "1.IH"(1) [OF c r refl pos refl False assms] show False
        by simp
    next
      case True
      with c r pos a assms obtain ch s2 where
        f: "f (ptr ! pos) src1 = Inr (ch, s2)"
        by (subst (asm) seek_attempts.simps) (auto simp: closure_ok_def split: sum.splits)
      with c r pos True a show False
        by (subst (asm) seek_attempts.simps) (simp add: seek_attempts_done)
    qed
  qed
qed


lemma seek_attempts_not_ok:
  assumes "seek_attempts g f ii False ptr src = Inr (False, ptr', src')"
  shows "position_misses g ptr (100000 - ii) src"
  using assms
proof (induction g f ii "False" ptr src rule: seek_attempts.induct)
  case (1 g f ii ptr src)
  show ?case
  proof (cases "ii < 100000")
    case False
    then show ?thesis by simp
  next
    case True
    with "1.prems" obtain pos src1 where
      r: "rand_Int (unat (ucast (length_f g) :: uint64)) src = Inr (pos, src1)"
      by (subst (asm) seek_attempts.simps) (auto split: sum.splits)
    from True r "1.prems" have pos: "\<not> length ptr \<le> pos"
      by (subst (asm) seek_attempts.simps) (auto split: if_splits)
    have low: "\<not> isLowercase (ptr ! pos)"
    proof
      assume "isLowercase (ptr ! pos)"
      with True r pos "1.prems" show False
        by (subst (asm) seek_attempts.simps)
           (auto simp: Contains_letterCharset seek_attempts_done split: sum.splits)
    qed
    with True r pos "1.prems"
    have rec: "seek_attempts g f (ii + 1) False ptr src1 = Inr (False, ptr', src')"
      by (subst (asm) seek_attempts.simps) (simp add: Contains_letterCharset)
    from low have c: "\<not> strings_Contains letterCharset (string_of_byte (ptr ! pos))"
      by (simp add: Contains_letterCharset)
    from True have t: "ii < 100000 \<and> \<not> False" by simp
    from "1.hyps"(1) [OF t r refl pos refl c rec]
    have ih: "position_misses g ptr (100000 - (ii + 1)) src1" .
    from True have n: "100000 - ii = Suc (100000 - (ii + 1))"
      by simp
    from r have "rand_Int (unat (length_f g)) src = Inr (pos, src1)"
      by (simp add: unat_ucast_32_64)
    with ih low show ?thesis
      unfolding n by simp
  qed
qed

lemma seek_attempts_starved:
  assumes "k = 100000 - ii" and "position_misses g ptr k src"
    and "length ptr = unat (length_f g)"
  shows "\<exists>src'. seek_attempts g f ii False ptr src = Inr (False, ptr, src')"
  using assms(1,2)
proof (induction k arbitrary: ii src)
  case 0
  then show ?case
    by (simp add: seek_attempts.simps)
next
  case (Suc k)
  from Suc.prems(2) obtain pos src1 where
    r: "rand_Int (unat (length_f g)) src = Inr (pos, src1)"
    and miss: "\<not> isLowercase (ptr ! pos)"
    and rest: "position_misses g ptr k src1"
    by (auto split: sum.splits)
  from rand_Int_Inr(1) [OF r] assms(3) have pos: "pos < length ptr"
    by simp
  from Suc.prems(1) have ii: "ii < 100000" "k = 100000 - (ii + 1)"
    by simp_all
  from Suc.IH [OF ii(2) rest] obtain src' where
    "seek_attempts g f (ii + 1) False ptr src1 = Inr (False, ptr, src')"
    by blast
  with ii(1) r miss pos have "seek_attempts g f ii False ptr src = Inr (False, ptr, src')"
    by (subst seek_attempts.simps)
       (simp add: unat_ucast_32_64 Contains_letterCharset)
  then show ?case
    by blast
qed

lemma fst_after: "fst (after s r) = s # fst r"
  by (simp add: after_def)

lemma snd_after: "snd (after s r) = snd r"
  by (simp add: after_def)

text \<open>One iteration of the outer loop, by the outcome of its attempts.\<close>

lemma seek_loop_exit:
  "\<not> i < cnt \<Longrightarrow> seek_loop g f i cnt ptr src = ([(ptr, src)], Inr (ptr, src))"
  by (subst seek_loop.simps) simp

lemma seek_loop_error:
  "i < cnt \<Longrightarrow> seek_attempts g f 0 False ptr src = Inl e
     \<Longrightarrow> seek_loop g f i cnt ptr src = ([(ptr, src)], Inl e)"
  by (subst seek_loop.simps) simp

lemma seek_loop_gave_up:
  "i < cnt \<Longrightarrow> seek_attempts g f 0 False ptr src = Inr (False, ptr', src')
     \<Longrightarrow> seek_loop g f i cnt ptr src = ([(ptr, src)], Inl AntiDeadlock)"
  by (subst seek_loop.simps) simp

lemma seek_loop_next:
  "i < cnt \<Longrightarrow> seek_attempts g f 0 False ptr src = Inr (True, ptr', src')
     \<Longrightarrow> seek_loop g f i cnt ptr src
         = after (ptr, src) (seek_loop g f (i + 1) cnt ptr' src')"
  by (subst seek_loop.simps) simp

lemma seek_loop_cases:
  obtains (exit) "\<not> i < cnt"
  | (error) e where "i < cnt" "seek_attempts g f 0 False ptr src = Inl e"
  | (gave_up) ptr' src' where "i < cnt"
      "seek_attempts g f 0 False ptr src = Inr (False, ptr', src')"
  | (more) ptr' src' where "i < cnt"
      "seek_attempts g f 0 False ptr src = Inr (True, ptr', src')"
proof (cases "i < cnt")
  case False
  then show ?thesis by (rule exit)
next
  case True
  show ?thesis
  proof (cases "seek_attempts g f 0 False ptr src")
    case (Inl e)
    with True show ?thesis by (rule error)
  next
    case (Inr r)
    obtain ok ptr' src' where "r = (ok, ptr', src')"
      by (cases r)
    with True Inr show ?thesis
      by (cases ok) (auto intro: gave_up more)
  qed
qed

lemma seek_loop_states:
  "fst (seek_loop g f i cnt ptr src) \<noteq> []"
  "hd (fst (seek_loop g f i cnt ptr src)) = (ptr, src)"
  by (cases rule: seek_loop_cases [where i = i and cnt = cnt and g = g and f = f and ptr = ptr
        and src = src];
      simp add: seek_loop_exit seek_loop_error seek_loop_gave_up seek_loop_next fst_after)+

lemma seek_loop_last:
  "snd (seek_loop g f i cnt ptr src) = Inr s \<Longrightarrow> last (fst (seek_loop g f i cnt ptr src)) = s"
proof (induction g f i cnt ptr src rule: seek_loop.induct)
  case (1 g f i cnt ptr src)
  show ?case
  proof (cases rule: seek_loop_cases [where i = i and cnt = cnt and g = g and f = f and ptr = ptr
        and src = src])
    case exit
    with "1.prems" show ?thesis
      by (simp add: seek_loop_exit)
  next
    case (error e)
    with "1.prems" show ?thesis
      by (simp add: seek_loop_error)
  next
    case (gave_up ptr' src')
    with "1.prems" show ?thesis
      by (simp add: seek_loop_gave_up)
  next
    case (more ptr' src')
    note eq = seek_loop_next [OF more]
    from "1.prems" have "snd (seek_loop g f (i + 1) cnt ptr' src') = Inr s"
      by (simp add: eq snd_after)
    from "1.IH" [OF more(1,2) refl refl _ this]
    have "last (fst (seek_loop g f (i + 1) cnt ptr' src')) = s"
      by simp
    then show ?thesis
      by (simp add: eq fst_after seek_loop_states(1))
  qed
qed

lemma seek_loop_substituted:
  assumes "closure_ok f Q" "snd (seek_loop g f i cnt ptr src) = Inr (ptr', src')"
  shows "substituted Q (unat cnt - unat i) ptr ptr' \<and> suffix src' src"
  using assms
proof (induction g f i cnt ptr src rule: seek_loop.induct)
  case (1 g f i cnt ptr src)
  show ?case
  proof (cases rule: seek_loop_cases [where i = i and cnt = cnt and g = g and f = f and ptr = ptr
        and src = src])
    case exit
    with "1.prems"(2) show ?thesis
      by (simp add: seek_loop_exit uint32_done substituted_0)
  next
    case (error e)
    with "1.prems"(2) show ?thesis
      by (simp add: seek_loop_error)
  next
    case (gave_up ptr1 src1)
    with "1.prems"(2) show ?thesis
      by (simp add: seek_loop_gave_up)
  next
    case (more ptr1 src1)
    note True = more(1) and a = more(2)
    from "1.prems"(2) have rec: "snd (seek_loop g f (i + 1) cnt ptr1 src1) = Inr (ptr', src')"
      by (simp add: seek_loop_next [OF more] snd_after)
    from "1.IH" [OF True a refl refl _ "1.prems"(1) rec]
    have ih: "substituted Q (unat cnt - unat (i + 1)) ptr1 ptr'" "suffix src' src1"
      by simp_all
    from seek_attempts_Inr [OF a] obtain pos s1 c where
      s: "pos < length ptr" "isLowercase (ptr ! pos)" "f (ptr ! pos) s1 = Inr (c, src1)"
         "suffix s1 src" "ptr1 = ptr[pos := c]"
      by blast
    from s(2,3) "1.prems"(1) have "Q c" "suffix src1 s1"
      by (blast dest: closure_okD)+
    with s ih show ?thesis
      unfolding uint32_remaining [OF True]
      by (auto intro: substituted_Suc suffix_order.trans)
  qed
qed

lemma classCount_update:
  "pos < length ptr \<Longrightarrow>
     classCount R (ptr[pos := c]) + of_bool (R (ptr ! pos)) = classCount R ptr + of_bool (R c)"
proof (induction ptr arbitrary: pos)
  case Nil
  then show ?case by simp
next
  case (Cons x xs)
  show ?case
  proof (cases pos)
    case 0
    then show ?thesis by (simp add: classCount_def)
  next
    case (Suc p)
    with Cons.prems have "p < length xs" by simp
    from Cons.IH [OF this] Suc show ?thesis
      by (simp add: classCount_def)
  qed
qed

lemma substituted_length: "substituted Q k ptr ptr' \<Longrightarrow> length ptr' = length ptr"
  by (induction rule: substituted.induct) simp_all

lemma substituted_count:
  assumes "substituted Q k ptr ptr'"
    and "\<And>x. isLowercase x \<Longrightarrow> R x = rl" and "\<And>c. Q c \<Longrightarrow> R c = rn"
  shows "classCount R ptr' + k * of_bool rl = classCount R ptr + k * of_bool rn"
  using assms(1)
proof (induction rule: substituted.induct)
  case (substituted_0 ptr)
  then show ?case by simp
next
  case (substituted_Suc pos ptr c k ptr')
  from classCount_update [OF substituted_Suc.hyps(1), of R c]
    assms(2) [OF substituted_Suc.hyps(2)] assms(3) [OF substituted_Suc.hyps(3)]
  have "classCount R (ptr[pos := c]) + of_bool rl = classCount R ptr + of_bool rn"
    by simp
  with substituted_Suc.IH show ?case
    by simp
qed

lemma substituted_all:
  assumes "substituted Q k ptr ptr'" and "\<And>c. Q c \<Longrightarrow> P c" and "list_all P ptr"
  shows "list_all P ptr'"
  using assms(1,3)
proof (induction rule: substituted.induct)
  case (substituted_0 ptr)
  then show ?case by simp
next
  case (substituted_Suc pos ptr c k ptr')
  have "set (ptr[pos := c]) \<subseteq> insert c (set ptr)"
    by (rule set_update_subset_insert)
  with substituted_Suc.prems assms(2) [OF substituted_Suc.hyps(3)]
  have "list_all P (ptr[pos := c])"
    by (auto simp: list_all_iff)
  then show ?case
    by (rule substituted_Suc.IH)
qed

text \<open>
  When the outer loop ends in the anti-deadlock error, the last state of its
  run is the head of the substitution that gave up: the buffer has the length
  of the initial one and still holds a base letter (as long as no more
  substitutions were asked for than the initial buffer had base letters), and
  the substitution is starved on the entropy left at that state.
\<close>

lemma seek_loop_AntiDeadlock:
  assumes "closure_ok f Q" and "\<And>c. Q c \<Longrightarrow> \<not> isLowercase c"
    and "snd (seek_loop g f i cnt ptr src) = Inl AntiDeadlock"
    and "unat cnt - unat i \<le> classCount isLowercase ptr"
  shows "case last (fst (seek_loop g f i cnt ptr src)) of
           (p, r) \<Rightarrow> length p = length ptr \<and> 0 < classCount isLowercase p
                      \<and> suffix r src \<and> starved g p r"
  using assms(1,3,4)
proof (induction g f i cnt ptr src rule: seek_loop.induct)
  case (1 g f i cnt ptr src)
  show ?case
  proof (cases rule: seek_loop_cases [where i = i and cnt = cnt and g = g and f = f and ptr = ptr
        and src = src])
    case exit
    with "1.prems"(2) show ?thesis
      by (simp add: seek_loop_exit)
  next
    case (error e)
    with "1.prems"(2) seek_attempts_error [OF "1.prems"(1), of g 0 False ptr src]
    show ?thesis
      by (simp add: seek_loop_error)
  next
    case (gave_up ptr1 src1)
    from "1.prems"(3) have "0 < classCount isLowercase ptr"
      unfolding uint32_remaining [OF gave_up(1)] by simp
    moreover from seek_attempts_not_ok [OF gave_up(2)] have "starved g ptr src"
      by (simp add: starved_def)
    ultimately show ?thesis
      by (simp add: seek_loop_gave_up [OF gave_up])
  next
    case (more ptr1 src1)
    note lt = more(1) and a = more(2)
    note eq = seek_loop_next [OF more]
    from "1.prems"(2) have rec: "snd (seek_loop g f (i + 1) cnt ptr1 src1) = Inl AntiDeadlock"
      by (simp add: eq snd_after)
    from seek_attempts_Inr [OF a] obtain p s1 c where
      s: "p < length ptr" "isLowercase (ptr ! p)" "f (ptr ! p) s1 = Inr (c, src1)"
         "suffix s1 src" "ptr1 = ptr[p := c]"
      by blast
    from s(2,3) "1.prems"(1) have c: "Q c" "suffix src1 s1"
      by (blast dest: closure_okD)+
    from classCount_update [OF s(1), of isLowercase c] s(2) assms(2) [OF c(1)]
    have "classCount isLowercase ptr1 + 1 = classCount isLowercase ptr"
      by (simp add: s(5))
    with "1.prems"(3) have le: "unat cnt - unat (i + 1) \<le> classCount isLowercase ptr1"
      unfolding uint32_remaining [OF lt] by simp
    obtain p' r' where l: "last (fst (seek_loop g f (i + 1) cnt ptr1 src1)) = (p', r')"
      by (cases "last (fst (seek_loop g f (i + 1) cnt ptr1 src1))")
    from "1.IH" [OF lt a refl refl _ "1.prems"(1) rec le] l
    have r: "length p' = length ptr1" "0 < classCount isLowercase p'"
         "suffix r' src1" "starved g p' r'"
      by simp_all
    from r(3) c(2) have "suffix r' s1"
      by (rule suffix_order.trans)
    then have "suffix r' src"
      using s(4) by (rule suffix_order.trans)
    with r s(5) l show ?thesis
      by (simp add: eq fst_after seek_loop_states(1))
  qed
qed

text \<open>
  Every buffer in the run of the outer loop keeps a property of bytes that
  the initial buffer has and that the class of the pass implies.
\<close>

lemma seek_loop_states_all:
  assumes "closure_ok f Q" and "\<And>c. Q c \<Longrightarrow> P c" and "list_all P ptr"
  shows "list_all (\<lambda>s. list_all P (fst s)) (fst (seek_loop g f i cnt ptr src))"
  using assms(1,3)
proof (induction g f i cnt ptr src rule: seek_loop.induct)
  case (1 g f i cnt ptr src)
  show ?case
  proof (cases rule: seek_loop_cases [where i = i and cnt = cnt and g = g and f = f and ptr = ptr
        and src = src])
    case exit
    with "1.prems"(2) show ?thesis
      by (simp add: seek_loop_exit)
  next
    case (error e)
    with "1.prems"(2) show ?thesis
      by (simp add: seek_loop_error)
  next
    case (gave_up ptr1 src1)
    with "1.prems"(2) show ?thesis
      by (simp add: seek_loop_gave_up [OF gave_up])
  next
    case (more ptr1 src1)
    from seek_attempts_Inr [OF more(2)] obtain p s1 c where
      s: "isLowercase (ptr ! p)" "f (ptr ! p) s1 = Inr (c, src1)" "ptr1 = ptr[p := c]"
      by blast
    from s(1,2) "1.prems"(1) have "Q c"
      by (blast dest: closure_okD)
    then have "P c"
      by (rule assms(2))
    moreover have "set (ptr[p := c]) \<subseteq> insert c (set ptr)"
      by (rule set_update_subset_insert)
    ultimately have "list_all P ptr1"
      using "1.prems"(2) s(3) by (auto simp: list_all_iff)
    from "1.IH" [OF more(1,2) refl refl _ "1.prems"(1) this] "1.prems"(2)
    show ?thesis
      by (simp add: seek_loop_next [OF more] fst_after)
  qed
qed

subsection \<open>Evaluation on concrete inputs\<close>

lemma rand_Read_unfold:
  "rand_Read n src =
     (if n = 0 then Inr ([], src)
      else case src of
             [] \<Rightarrow> Inl EntropySourceError
           | None # rest \<Rightarrow> Inl EntropySourceError
           | Some v # rest \<Rightarrow>
               (case rand_Read (n - 1) rest of
                  Inl e \<Rightarrow> Inl e
                | Inr (bs, rest') \<Rightarrow> Inr (of_nat v # bs, rest')))"
  by (cases n; cases src) (auto split: option.splits)

lemma replicate_numeral_Cons: "replicate (numeral k) x = x # replicate (pred_numeral k) x"
  by (simp add: numeral_eq_Suc)

lemma list_update_numeral_Cons: "(x # xs)[numeral k := y] = x # xs[pred_numeral k := y]"
  by (simp add: numeral_eq_Suc)

lemmas eval_simps = replicate_numeral_Cons list_update_numeral_Cons Generate_def
  Generate_run_def after_def generateBase_def generateBase_loop.simps secureRandomChar_def
  secureRandomByte_def rand_Int_def rand_Read_unfold constDigest_def letterCharset_list
  digitCharset_list specialCharset_list applyUppercase_def applyDigits_def applySpecial_def
  seekNonBaseLetterAndApply_def seek_loop.simps seek_attempts.simps string_of_byte_def
  applyUppercase_fn_def applyDigits_fn_def applySpecial_fn_def unicode_ToUpper_def
  unat_ucast_32_64

lemmas eval_congs =
  sum.case_cong_weak prod.case_cong_weak list.case_cong_weak option.case_cong_weak

subsection \<open>The generated buffer\<close>

text \<open>One iteration of the base fill, by the outcome of its draw.\<close>

lemma generateBase_loop_exit:
  "\<not> i < length_f g \<Longrightarrow> generateBase_loop H g i ret src = ([(ret, src)], Inr (ret, src))"
  by (subst generateBase_loop.simps) simp

lemma generateBase_loop_failed:
  "i < length_f g \<Longrightarrow> secureRandomChar H letterCharset src = Inl e
     \<Longrightarrow> generateBase_loop H g i ret src = ([(ret, src)], Inl e)"
  by (subst generateBase_loop.simps) simp

lemma generateBase_loop_panic:
  "i < length_f g \<Longrightarrow> secureRandomChar H letterCharset src = Inr (b, src')
     \<Longrightarrow> \<not> unat i < length ret
     \<Longrightarrow> generateBase_loop H g i ret src = ([(ret, src)], Inl RuntimePanic)"
  by (subst generateBase_loop.simps) simp

lemma generateBase_loop_next:
  "i < length_f g \<Longrightarrow> secureRandomChar H letterCharset src = Inr (b, src')
     \<Longrightarrow> unat i < length ret
     \<Longrightarrow> generateBase_loop H g i ret src
         = after (ret, src) (generateBase_loop H g (i + 1) (ret[unat i := b]) src')"
  by (subst generateBase_loop.simps) simp

lemma generateBase_loop_cases:
  obtains (exit) "\<not> i < length_f g"
  | (failed) e where "i < length_f g" "secureRandomChar H letterCharset src = Inl e"
  | (panic) b src' where "i < length_f g"
      "secureRandomChar H letterCharset src = Inr (b, src')" "\<not> unat i < length ret"
  | (more) b src' where "i < length_f g"
      "secureRandomChar H letterCharset src = Inr (b, src')" "unat i < length ret"
proof (cases "i < length_f g")
  case False
  then show ?thesis by (rule exit)
next
  case True
  show ?thesis
  proof (cases "secureRandomChar H letterCharset src")
    case (Inl e)
    with True show ?thesis by (rule failed)
  next
    case (Inr r)
    obtain b src' where "r = (b, src')"
      by (cases r)
    with True Inr show ?thesis
      by (cases "unat i < length ret") (auto intro: panic more)
  qed
qed

lemmas generateBase_loop_steps =
  generateBase_loop_exit generateBase_loop_failed generateBase_loop_panic

lemma generateBase_loop_states: "fst (generateBase_loop H g i ret src) \<noteq> []"
  by (cases rule: generateBase_loop_cases [where i = i and g = g and H = H and src = src
        and ret = ret])
     (simp_all add: generateBase_loop_steps generateBase_loop_next fst_after)

lemma generateBase_loop_last:
  "snd (generateBase_loop H g i ret src) = Inr s
     \<Longrightarrow> last (fst (generateBase_loop H g i ret src)) = s"
proof (induction H g i ret src rule: generateBase_loop.induct)
  case (1 H g i ret src)
  show ?case
  proof (cases rule: generateBase_loop_cases [where i = i and g = g and H = H and src = src
        and ret = ret])
    case (more b src')
    note eq = generateBase_loop_next [OF more]
    from "1.prems" have "snd (generateBase_loop H g (i + 1) (ret[unat i := b]) src') = Inr s"
      by (simp add: eq snd_after)
    from "1.IH" [OF more(1,2) refl more(3) this] show ?thesis
      by (simp add: eq fst_after generateBase_loop_states)
  qed (use "1.prems" in \<open>simp_all add: generateBase_loop_steps\<close>)
qed

lemma generateBase_loop_Inr:
  assumes "snd (generateBase_loop H g i ret src) = Inr (ret', src')"
    and "length ret = unat (length_f g)" and "\<forall>j < unat i. isLowercase (ret ! j)"
  shows "length ret' = unat (length_f g) \<and> list_all isLowercase ret' \<and> suffix src' src"
  using assms
proof (induction H g i ret src rule: generateBase_loop.induct)
  case (1 H g i ret src)
  show ?case
  proof (cases rule: generateBase_loop_cases [where i = i and g = g and H = H and src = src
        and ret = ret])
    case exit
    then have "unat (length_f g) \<le> unat i"
      by (simp add: word_less_nat_alt)
    with "1.prems"(2,3) have "list_all isLowercase ret"
      by (simp add: list_all_length)
    with exit "1.prems"(1,2) show ?thesis
      by (simp add: generateBase_loop_exit)
  next
    case (failed e)
    with "1.prems"(1) show ?thesis
      by (simp add: generateBase_loop_failed)
  next
    case (panic b src1)
    with "1.prems"(1) show ?thesis
      by (simp add: generateBase_loop_panic)
  next
    case (more b src1)
    note True = more(1) and c = more(2) and i = more(3)
    from "1.prems"(1)
    have rec: "snd (generateBase_loop H g (i + 1) (ret[unat i := b]) src1) = Inr (ret', src')"
      by (simp add: generateBase_loop_next [OF more] snd_after)
    from secureRandomChar_mem [OF c] have b: "isLowercase b"
      by (simp add: isLowercase_def)
    have "\<forall>j < unat (i + 1). isLowercase (ret[unat i := b] ! j)"
      unfolding uint32_succ [OF True]
      using "1.prems"(3) i b by (auto simp: nth_list_update less_Suc_eq)
    with "1.IH" [OF True c refl i rec] "1.prems"(2)
    have r: "length ret' = unat (length_f g)" "list_all isLowercase ret'" "suffix src' src1"
      by simp_all
    from r(3) secureRandomChar_suffix [OF c] have "suffix src' src"
      by (rule suffix_order.trans)
    with r(1,2) show ?thesis
      by simp
  qed
qed

lemma generateBase_loop_no_AntiDeadlock:
  "snd (generateBase_loop H g i ret src) \<noteq> Inl AntiDeadlock"
proof (induction H g i ret src rule: generateBase_loop.induct)
  case (1 H g i ret src)
  show ?case
  proof (cases rule: generateBase_loop_cases [where i = i and g = g and H = H and src = src
        and ret = ret])
    case (failed e)
    with secureRandomChar_error [of H letterCharset src] show ?thesis
      by (auto simp: generateBase_loop_failed)
  next
    case (more b src')
    from "1.IH" [OF more(1,2) refl more(3)] show ?thesis
      by (simp add: generateBase_loop_next [OF more] snd_after)
  qed (simp_all add: generateBase_loop_steps)
qed

text \<open>
  Every buffer in the run of the base fill keeps a property of bytes that the
  initial buffer has and that every base letter has.
\<close>

lemma generateBase_loop_states_all:
  assumes "\<And>c. isLowercase c \<Longrightarrow> P c" and "list_all P ret"
  shows "list_all (\<lambda>s. list_all P (fst s)) (fst (generateBase_loop H g i ret src))"
  using assms(2)
proof (induction H g i ret src rule: generateBase_loop.induct)
  case (1 H g i ret src)
  show ?case
  proof (cases rule: generateBase_loop_cases [where i = i and g = g and H = H and src = src
        and ret = ret])
    case (more b src')
    from secureRandomChar_mem [OF more(2)] have "P b"
      by (simp add: assms(1) isLowercase_def)
    moreover have "set (ret[unat i := b]) \<subseteq> insert b (set ret)"
      by (rule set_update_subset_insert)
    ultimately have "list_all P (ret[unat i := b])"
      using "1.prems" by (auto simp: list_all_iff)
    from "1.IH" [OF more(1,2) refl more(3) this] "1.prems" show ?thesis
      by (simp add: generateBase_loop_next [OF more] fst_after)
  qed (use "1.prems" in \<open>simp_all add: generateBase_loop_steps\<close>)
qed

lemma generateBase_Inr:
  assumes "snd (generateBase H g src) = Inr (b, src')"
  shows "length b = unat (length_f g)" "list_all isLowercase b" "suffix src' src"
  using generateBase_loop_Inr [of H g 0 "replicate (unat (length_f g)) 0" src b src'] assms
  by (simp_all add: generateBase_def)

lemma classCount_all:
  assumes "list_all isLowercase b"
  shows "classCount isLowercase b = length b"
    and "(\<And>x. isLowercase x \<Longrightarrow> \<not> R x) \<Longrightarrow> classCount R b = 0"
  using assms by (induction b) (auto simp: classCount_def)

lemma classCount_pos: "0 < classCount P b \<longleftrightarrow> (\<exists>c \<in> set b. P c)"
  by (simp add: classCount_def filter_empty_conv)

lemma inOneClass_lower: "isLowercase c \<Longrightarrow> inOneClass c"
  using isLowercase_classes(1-3) [of c] by (simp add: inOneClass_def)

lemma inOneClass_upper: "isUppercase c \<Longrightarrow> inOneClass c"
  using isUppercase_classes(1-3) [of c] by (simp add: inOneClass_def)

lemma inOneClass_digit: "isDigit c \<Longrightarrow> inOneClass c"
  using isDigit_classes(1-3) [of c] by (simp add: inOneClass_def)

lemma inOneClass_special: "isSpecial c \<Longrightarrow> inOneClass c"
  using isSpecial_classes(1-3) [of c] by (simp add: inOneClass_def)

text \<open>The four stages of a successful run of \<open>Generate\<close>.\<close>

lemma Generate_run_unfold:
  "Generate_run H g src =
     (let r0 = generateBase H g src
      in case snd r0 of
           Inl e \<Rightarrow> (fst r0, Inl e)
         | Inr (b0, s0) \<Rightarrow>
             let r1 = applyUppercase g b0 s0
             in case snd r1 of
                  Inl e \<Rightarrow> (fst r0 @ fst r1, Inl e)
                | Inr (b1, s1) \<Rightarrow>
                    let r2 = applyDigits H g b1 s1
                    in case snd r2 of
                         Inl e \<Rightarrow> (fst r0 @ fst r1 @ fst r2, Inl e)
                       | Inr (b2, s2) \<Rightarrow>
                           let r3 = applySpecial H g b2 s2
                           in (fst r0 @ fst r1 @ fst r2 @ fst r3, snd r3))"
  by (simp add: Generate_run_def Let_def split: prod.splits sum.splits)

lemma Generate_Inr_outcomes:
  assumes "Generate H g src = Inr (b, src')"
  shows "\<exists>b0 s0 b1 s1 b2 s2.
           snd (generateBase H g src) = Inr (b0, s0)
           \<and> snd (applyUppercase g b0 s0) = Inr (b1, s1)
           \<and> snd (applyDigits H g b1 s1) = Inr (b2, s2)
           \<and> snd (applySpecial H g b2 s2) = Inr (b, src')"
  using assms
  by (auto simp: Generate_def Generate_run_unfold Let_def split: sum.splits)

lemma Generate_Inr_stages:
  assumes "Generate H g src = Inr (b, src')"
  shows "\<exists>b0 b1 b2. length b0 = unat (length_f g) \<and> list_all isLowercase b0
           \<and> substituted isUppercase (unat (uppercaseCount g)) b0 b1
           \<and> substituted isDigit (unat (digitCount g)) b1 b2
           \<and> substituted isSpecial (unat (specialCount g)) b2 b"
proof -
  from Generate_Inr_outcomes [OF assms] obtain b0 s0 b1 s1 b2 s2 where
    st: "snd (generateBase H g src) = Inr (b0, s0)"
        "snd (applyUppercase g b0 s0) = Inr (b1, s1)"
        "snd (applyDigits H g b1 s1) = Inr (b2, s2)"
        "snd (applySpecial H g b2 s2) = Inr (b, src')"
    by blast
  from seek_loop_substituted [OF closure_ok_upper] st(2)
  have "substituted isUppercase (unat (uppercaseCount g)) b0 b1"
    by (fastforce simp: applyUppercase_def seekNonBaseLetterAndApply_def)
  moreover from seek_loop_substituted [OF closure_ok_digit] st(3)
  have "substituted isDigit (unat (digitCount g)) b1 b2"
    by (fastforce simp: applyDigits_def seekNonBaseLetterAndApply_def)
  moreover from seek_loop_substituted [OF closure_ok_special] st(4)
  have "substituted isSpecial (unat (specialCount g)) b2 b"
    by (fastforce simp: applySpecial_def seekNonBaseLetterAndApply_def)
  ultimately show ?thesis
    using generateBase_Inr(1,2) [OF st(1)] by blast
qed

lemma substituted_count_other:
  assumes "substituted Q k ptr ptr'"
    and "\<And>x. isLowercase x \<Longrightarrow> \<not> R x" and "\<And>c. Q c \<Longrightarrow> \<not> R c"
  shows "classCount R ptr' = classCount R ptr"
  using substituted_count [OF assms(1), of R False False] assms(2,3) by simp

lemma substituted_count_target:
  assumes "substituted Q k ptr ptr'" and "\<And>x. isLowercase x \<Longrightarrow> \<not> Q x"
  shows "classCount Q ptr' = classCount Q ptr + k"
  using substituted_count [OF assms(1), of Q False True] assms(2) by simp

lemma substituted_count_lower:
  assumes "substituted Q k ptr ptr'" and "\<And>c. Q c \<Longrightarrow> \<not> isLowercase c"
  shows "classCount isLowercase ptr' + k = classCount isLowercase ptr"
  using substituted_count [OF assms(1), of isLowercase True False] assms(2) by simp

text \<open>
  Claim C1. For every valid config, a successful call of \<open>Generate\<close> returns a
  buffer of exactly \<open>length\<close> bytes, each in exactly one of the four classes
  (lowercase, uppercase, digit, special); the numbers of uppercase, digit and
  special bytes are \<open>uppercaseCount\<close>, \<open>digitCount\<close> and \<open>specialCount\<close>, and the
  remaining \<open>length - (uppercaseCount + digitCount + specialCount)\<close> bytes are
  lowercase letters.
\<close>

theorem Generate_classes:
  assumes "valid_config g" and "Generate H g src = Inr (b, src')"
  shows "length b = unat (length_f g)
         \<and> list_all inOneClass b
         \<and> classCount isUppercase b = unat (uppercaseCount g)
         \<and> classCount isDigit b = unat (digitCount g)
         \<and> classCount isSpecial b = unat (specialCount g)
         \<and> classCount isLowercase b = baseCount g"
proof -
  from Generate_Inr_stages [OF assms(2)] obtain b0 b1 b2 where
    b0: "length b0 = unat (length_f g)" "list_all isLowercase b0"
    and u: "substituted isUppercase (unat (uppercaseCount g)) b0 b1"
    and d: "substituted isDigit (unat (digitCount g)) b1 b2"
    and s: "substituted isSpecial (unat (specialCount g)) b2 b"
    by blast
  have len: "length b = unat (length_f g)"
    using substituted_length [OF u] substituted_length [OF d] substituted_length [OF s] b0(1)
    by simp
  have "list_all inOneClass b0"
    using b0(2) by (auto simp: list_all_iff inOneClass_lower)
  with substituted_all [OF u, of inOneClass] have "list_all inOneClass b1"
    by (blast intro: inOneClass_upper)
  with substituted_all [OF d, of inOneClass] have "list_all inOneClass b2"
    by (blast intro: inOneClass_digit)
  with substituted_all [OF s, of inOneClass] have one: "list_all inOneClass b"
    by (blast intro: inOneClass_special)
  have upper: "classCount isUppercase b = unat (uppercaseCount g)"
    using classCount_all(2) [OF b0(2) isLowercase_classes(1)]
      substituted_count_target [OF u isLowercase_classes(1)]
      substituted_count_other [OF d isLowercase_classes(1) isDigit_classes(2)]
      substituted_count_other [OF s isLowercase_classes(1) isSpecial_classes(2)]
    by simp
  have digit: "classCount isDigit b = unat (digitCount g)"
    using classCount_all(2) [OF b0(2) isLowercase_classes(2)]
      substituted_count_other [OF u isLowercase_classes(2) isUppercase_classes(2)]
      substituted_count_target [OF d isLowercase_classes(2)]
      substituted_count_other [OF s isLowercase_classes(2) isSpecial_classes(3)]
    by simp
  have special: "classCount isSpecial b = unat (specialCount g)"
    using classCount_all(2) [OF b0(2) isLowercase_classes(3)]
      substituted_count_other [OF u isLowercase_classes(3) isUppercase_classes(3)]
      substituted_count_other [OF d isLowercase_classes(3) isDigit_classes(3)]
      substituted_count_target [OF s isLowercase_classes(3)]
    by simp
  have "classCount isLowercase b + unat (uppercaseCount g) + unat (digitCount g)
          + unat (specialCount g) = unat (length_f g)"
    using classCount_all(1) [OF b0(2)] b0(1)
      substituted_count_lower [OF u isUppercase_classes(1)]
      substituted_count_lower [OF d isDigit_classes(1)]
      substituted_count_lower [OF s isSpecial_classes(1)]
    by simp
  then have lower: "classCount isLowercase b = baseCount g"
    by (simp add: baseCount_def)
  from len one upper digit special lower show ?thesis
    by simp
qed

theorem Generate_classes_witness:
  "valid_config \<lparr>length_f = 4, uppercaseCount = 1, digitCount = 1, specialCount = 1\<rparr>
   \<and> Generate (constDigest 7)
         \<lparr>length_f = 4, uppercaseCount = 1, digitCount = 1, specialCount = 1\<rparr>
         [Some 0, Some 2, Some 9, Some 200, Some 1024, Some 1, Some 77, Some 6, Some 2, Some 3,
          Some 0, Some 3, Some 2, Some 0, Some 0]
       = Inr ([38, 104, 72, 55], [])
   \<and> (length [38, 104, 72, 55 :: byte]
         = unat (length_f \<lparr>length_f = 4, uppercaseCount = 1, digitCount = 1,
                            specialCount = 1 :: uint32\<rparr>)
       \<and> list_all inOneClass [38, 104, 72, 55]
       \<and> classCount isUppercase [38, 104, 72, 55]
           = unat (uppercaseCount \<lparr>length_f = 4 :: uint32, uppercaseCount = 1, digitCount = 1,
                                    specialCount = 1 :: uint32\<rparr>)
       \<and> classCount isDigit [38, 104, 72, 55]
           = unat (digitCount \<lparr>length_f = 4 :: uint32, uppercaseCount = 1 :: uint32,
                                digitCount = 1, specialCount = 1 :: uint32\<rparr>)
       \<and> classCount isSpecial [38, 104, 72, 55]
           = unat (specialCount \<lparr>length_f = 4 :: uint32, uppercaseCount = 1 :: uint32,
                                  digitCount = 1 :: uint32, specialCount = 1\<rparr>)
       \<and> classCount isLowercase [38, 104, 72, 55]
           = baseCount \<lparr>length_f = 4, uppercaseCount = 1, digitCount = 1, specialCount = 1\<rparr>)"
proof -
  have h1: "valid_config \<lparr>length_f = 4, uppercaseCount = 1, digitCount = 1, specialCount = 1\<rparr>"
    by (simp add: valid_config_def counts_fit_def)
  have h2: "Generate (constDigest 7)
         \<lparr>length_f = 4, uppercaseCount = 1, digitCount = 1, specialCount = 1\<rparr>
         [Some 0, Some 2, Some 9, Some 200, Some 1024, Some 1, Some 77, Some 6, Some 2, Some 3,
          Some 0, Some 3, Some 2, Some 0, Some 0]
       = Inr ([38, 104, 72, 55], [])"
    by (simp add: eval_simps cong: eval_congs)
  show ?thesis
    by (rule conjI [OF h1 conjI [OF h2 Generate_classes [OF h1 h2]]])
qed

subsection \<open>Validation and wrap-around\<close>

lemma Generate_needs_counts_fit:
  assumes "Generate H g src = Inr (b, src')"
  shows "counts_fit g"
proof -
  from Generate_Inr_stages [OF assms] obtain b0 b1 b2 where
    b0: "length b0 = unat (length_f g)" "list_all isLowercase b0"
    and u: "substituted isUppercase (unat (uppercaseCount g)) b0 b1"
    and d: "substituted isDigit (unat (digitCount g)) b1 b2"
    and s: "substituted isSpecial (unat (specialCount g)) b2 b"
    by blast
  have "classCount isLowercase b + unat (uppercaseCount g) + unat (digitCount g)
          + unat (specialCount g) = unat (length_f g)"
    using classCount_all(1) [OF b0(2)] b0(1)
      substituted_count_lower [OF u isUppercase_classes(1)]
      substituted_count_lower [OF d isDigit_classes(1)]
      substituted_count_lower [OF s isSpecial_classes(1)]
    by simp
  then show ?thesis
    by (simp add: counts_fit_def)
qed

text \<open>
  Claim C2 says that \<open>NewGenerator\<close> fails exactly when the length exceeds 128
  or the sum of the three counts, taken without wrap-around, exceeds the
  length. The sum in the code is a \<open>uint32\<close> sum: with length 10 and the counts
  4294967295, 1 and 0 it wraps to 0, and the config is accepted although the
  counts add up to 4294967296. On the accepted config \<open>Generate\<close> cannot
  succeed.
\<close>

theorem NewGenerator_accepts_wrapped_sum:
  "NewGenerator 10 4294967295 1 0
     = Inr \<lparr>length_f = 10, uppercaseCount = 4294967295, digitCount = 1, specialCount = 0\<rparr>
   \<and> unat (10 :: uint32)
       < unat (4294967295 :: uint32) + unat (1 :: uint32) + unat (0 :: uint32)
   \<and> (\<forall>H src b src'.
         Generate H \<lparr>length_f = 10, uppercaseCount = 4294967295, digitCount = 1,
                      specialCount = 0\<rparr> src \<noteq> Inr (b, src'))"
proof (intro conjI allI)
  show "NewGenerator 10 4294967295 1 0
     = Inr \<lparr>length_f = 10, uppercaseCount = 4294967295, digitCount = 1, specialCount = 0\<rparr>"
    by (simp add: NewGenerator_def)
  show "unat (10 :: uint32)
       < unat (4294967295 :: uint32) + unat (1 :: uint32) + unat (0 :: uint32)"
    by simp
  show "Generate H \<lparr>length_f = 10, uppercaseCount = 4294967295, digitCount = 1,
                      specialCount = 0\<rparr> src \<noteq> Inr (b, src')" for H src b src'
  proof
    assume "Generate H \<lparr>length_f = 10, uppercaseCount = 4294967295, digitCount = 1,
                      specialCount = 0\<rparr> src = Inr (b, src')"
    then have "counts_fit \<lparr>length_f = 10, uppercaseCount = 4294967295, digitCount = 1,
                      specialCount = 0\<rparr>"
      by (rule Generate_needs_counts_fit)
    then show False
      by (simp add: counts_fit_def)
  qed
qed

subsection \<open>The anti-deadlock error\<close>

lemma pass_AntiDeadlock:
  assumes "closure_ok f Q" and "\<And>c. Q c \<Longrightarrow> \<not> isLowercase c"
    and "snd (seek_loop g f 0 cnt ptr s) = Inl AntiDeadlock"
    and "unat cnt \<le> classCount isLowercase ptr"
    and "length ptr = unat (length_f g)" and "suffix s src"
  shows "case last (fst (seek_loop g f 0 cnt ptr s)) of
           (p, r) \<Rightarrow> length p = unat (length_f g) \<and> (\<exists>c \<in> set p. isLowercase c)
                      \<and> suffix r src \<and> starved g p r"
proof -
  obtain p r where l: "last (fst (seek_loop g f 0 cnt ptr s)) = (p, r)"
    by (cases "last (fst (seek_loop g f 0 cnt ptr s))")
  from seek_loop_AntiDeadlock [OF assms(1,2,3)] assms(4) l
  have r: "length p = length ptr" "0 < classCount isLowercase p" "suffix r s" "starved g p r"
    by simp_all
  from r(3) assms(6) have "suffix r src"
    by (rule suffix_order.trans)
  with r assms(5) l show ?thesis
    by (simp add: classCount_pos)
qed

text \<open>
  On a config whose counts fit, a run of \<open>Generate\<close> that ends in the
  anti-deadlock error ends at the head of a starved substitution.
\<close>

lemma Generate_AntiDeadlock_starved:
  assumes "counts_fit g" and "Generate H g src = Inl AntiDeadlock"
  shows "fst (Generate_run H g src) \<noteq> []
         \<and> (case last (fst (Generate_run H g src)) of
               (ptr, rest) \<Rightarrow> length ptr = unat (length_f g) \<and> (\<exists>c \<in> set ptr. isLowercase c)
                               \<and> suffix rest src \<and> starved g ptr rest)"
proof -
  let ?goal = "\<lambda>h :: state list. h \<noteq> []
      \<and> (case last h of
            (ptr, rest) \<Rightarrow> length ptr = unat (length_f g) \<and> (\<exists>c \<in> set ptr. isLowercase c)
                            \<and> suffix rest src \<and> starved g ptr rest)"
  define r0 where "r0 = generateBase H g src"
  have "snd r0 \<noteq> Inl AntiDeadlock"
    unfolding r0_def generateBase_def by (rule generateBase_loop_no_AntiDeadlock)
  with assms(2) obtain b0 s0 where st0: "snd r0 = Inr (b0, s0)"
    by (cases "snd r0")
       (auto simp: Generate_def Generate_run_unfold Let_def r0_def split: sum.splits)
  note base = generateBase_Inr [OF st0 [unfolded r0_def]]
  have c0: "classCount isLowercase b0 = unat (length_f g)"
    using classCount_all(1) [OF base(2)] base(1) by simp
  have fit: "unat (uppercaseCount g) + unat (digitCount g) + unat (specialCount g)
               \<le> unat (length_f g)"
    using assms(1) by (simp add: counts_fit_def)
  define r1 where "r1 = seek_loop g applyUppercase_fn 0 (uppercaseCount g) b0 s0"
  define run where "run = Generate_run H g src"
  have ne1: "fst r1 \<noteq> []"
    unfolding r1_def by (rule seek_loop_states(1))
  show ?thesis
  proof (cases "snd r1")
    case (Inl e)
    with assms(2) st0 have e: "e = AntiDeadlock" and eq: "fst run = fst r0 @ fst r1"
      by (simp_all add: Generate_def Generate_run_unfold Let_def r0_def r1_def run_def
          applyUppercase_def seekNonBaseLetterAndApply_def)
    from Inl e have "snd r1 = Inl AntiDeadlock"
      by simp
    from pass_AntiDeadlock [OF closure_ok_upper isUppercase_classes(1)
        this [unfolded r1_def] _ base(1,3)] c0 fit
    have "?goal (fst r1)"
      using ne1 by (simp add: r1_def)
    with ne1 have "?goal (fst run)"
      by (simp add: eq)
    then show ?thesis
      by (simp add: run_def)
  next
    case (Inr x1)
    obtain b1 s1 where st1: "snd r1 = Inr (b1, s1)"
      using Inr by (cases x1) simp
    from seek_loop_substituted [OF closure_ok_upper st1 [unfolded r1_def]]
    have u: "substituted isUppercase (unat (uppercaseCount g)) b0 b1" "suffix s1 s0"
      by simp_all
    have l1: "length b1 = unat (length_f g)"
      using substituted_length [OF u(1)] base(1) by simp
    have c1: "classCount isLowercase b1 + unat (uppercaseCount g) = unat (length_f g)"
      using substituted_count_lower [OF u(1) isUppercase_classes(1)] c0 by simp
    have x1: "suffix s1 src"
      using u(2) base(3) by (rule suffix_order.trans)
    define r2 where "r2 = seek_loop g (applyDigits_fn H) 0 (digitCount g) b1 s1"
    have ne2: "fst r2 \<noteq> []"
      unfolding r2_def by (rule seek_loop_states(1))
    show ?thesis
    proof (cases "snd r2")
      case (Inl e)
      with assms(2) st0 st1 have e: "e = AntiDeadlock"
        and eq: "fst run = fst r0 @ fst r1 @ fst r2"
        by (simp_all add: Generate_def Generate_run_unfold Let_def r0_def r1_def r2_def
            run_def applyUppercase_def applyDigits_def seekNonBaseLetterAndApply_def)
      from Inl e have "snd r2 = Inl AntiDeadlock"
        by simp
      from pass_AntiDeadlock [OF closure_ok_digit isDigit_classes(1)
          this [unfolded r2_def] _ l1 x1] c1 fit
      have "?goal (fst r2)"
        using ne2 by (simp add: r2_def)
      with ne2 have "?goal (fst run)"
        by (simp add: eq)
      then show ?thesis
        by (simp add: run_def)
    next
      case (Inr x2)
      obtain b2 s2 where st2: "snd r2 = Inr (b2, s2)"
        using Inr by (cases x2) simp
      from seek_loop_substituted [OF closure_ok_digit st2 [unfolded r2_def]]
      have d: "substituted isDigit (unat (digitCount g)) b1 b2" "suffix s2 s1"
        by simp_all
      have l2: "length b2 = unat (length_f g)"
        using substituted_length [OF d(1)] l1 by simp
      have c2: "classCount isLowercase b2 + unat (digitCount g) + unat (uppercaseCount g)
                  = unat (length_f g)"
        using substituted_count_lower [OF d(1) isDigit_classes(1)] c1 by simp
      have x2: "suffix s2 src"
        using d(2) x1 by (rule suffix_order.trans)
      define r3 where "r3 = seek_loop g (applySpecial_fn H) 0 (specialCount g) b2 s2"
      have ne3: "fst r3 \<noteq> []"
        unfolding r3_def by (rule seek_loop_states(1))
      from assms(2) st0 st1 st2 have "snd r3 = Inl AntiDeadlock"
        and eq: "fst run = fst r0 @ fst r1 @ fst r2 @ fst r3"
        by (simp_all add: Generate_def Generate_run_unfold Let_def r0_def r1_def r2_def r3_def
            run_def applyUppercase_def applyDigits_def applySpecial_def
            seekNonBaseLetterAndApply_def)
      from pass_AntiDeadlock [OF closure_ok_special isSpecial_classes(1)
          this(1) [unfolded r3_def] _ l2 x2] c2 fit
      have "?goal (fst r3)"
        using ne3 by (simp add: r3_def)
      with ne3 have "?goal (fst run)"
        by (simp add: eq)
      then show ?thesis
        by (simp add: run_def)
    qed
  qed
qed

text \<open>
  A run on a valid config that ends in the anti-deadlock error, whatever the
  digest function is: every draw of the source delivers 0, so no buffer is
  read for the whitening, the first substitution takes position 0, and the
  second finds position 0 occupied 100000 times.
\<close>

lemma secureRandomChar_no_buffer:
  "\<exists>c. isLowercase c
        \<and> (\<forall>rest. secureRandomChar H letterCharset (Some 0 # rest) = Inr (c, rest))"
proof -
  define c where "c = letterCharset ! unat ((H [] ! unat (H [] ! 5 mod 64)) mod 24)"
  have eq: "secureRandomChar H letterCharset (Some 0 # rest) = Inr (c, rest)" for rest
    by (simp add: secureRandomChar_def secureRandomByte_def rand_Int_def charset_lengths
        Let_def c_def)
  from secureRandomChar_mem [OF eq] have "isLowercase c"
    by (simp add: isLowercase_def)
  with eq show ?thesis
    by blast
qed

lemma position_misses_replicate:
  assumes "2 \<le> unat (length_f g)" and "\<not> isLowercase (ptr ! (v mod unat (length_f g)))"
  shows "position_misses g ptr n (replicate n (Some v))"
  using assms by (induction n) (simp_all add: rand_Int_def)

lemma starved_run:
  "Generate H \<lparr>length_f = 2, uppercaseCount = 2, digitCount = 0, specialCount = 0\<rparr> (replicate 100003 (Some 0)) = Inl AntiDeadlock"
proof -
  let ?g = "\<lparr>length_f = 2, uppercaseCount = 2, digitCount = 0, specialCount = 0 :: uint32\<rparr>"
  from secureRandomChar_no_buffer [of H] obtain c where
    c: "isLowercase c"
    and draw: "\<And>rest. secureRandomChar H letterCharset (Some 0 # rest) = Inr (c, rest)"
    by blast
  define C where "C = (of_nat (unicode_ToUpper c) :: byte)"
  have C: "\<not> isLowercase C"
    using isLowercase_classes(6) [OF c] isUppercase_classes(1) by (simp add: C_def)
  have src: "replicate 100003 (Some (0 :: nat))
      = Some 0 # Some 0 # Some 0 # replicate 100000 (Some 0)"
  proof -
    have "replicate (3 + 100000) (Some (0 :: nat))
        = replicate 3 (Some 0) @ replicate 100000 (Some 0)"
      by (rule replicate_add)
    then show ?thesis
      by (simp add: numeral_3_eq_3)
  qed
  have base: "snd (generateBase H ?g (Some 0 # Some 0 # rest)) = Inr ([c, c], rest)" for rest
    by (simp add: generateBase_def generateBase_loop.simps draw replicate_numeral_Cons
        list_update_numeral_Cons after_def cong: eval_congs)
  have first: "seek_attempts ?g applyUppercase_fn 0 False [c, c] (Some 0 # rest)
      = Inr (True, [C, c], rest)" for rest
    using c
    by (simp add: seek_attempts.simps rand_Int_def unat_ucast_32_64 Contains_letterCharset
        applyUppercase_fn_def C_def cong: eval_congs)
  have "position_misses ?g [C, c] 100000 (replicate 100000 (Some 0))"
    using C by (intro position_misses_replicate) simp_all
  from seek_attempts_starved [OF _ this, of 0 applyUppercase_fn] obtain src' where
    second: "seek_attempts ?g applyUppercase_fn 0 False [C, c] (replicate 100000 (Some 0))
      = Inr (False, [C, c], src')"
    by auto
  have "snd (seek_loop ?g applyUppercase_fn 1 2 [C, c] (replicate 100000 (Some 0)))
      = Inl AntiDeadlock"
    by (simp add: seek_loop_gave_up [OF _ second])
  then have "snd (seek_loop ?g applyUppercase_fn 0 2 [c, c]
        (Some 0 # replicate 100000 (Some 0))) = Inl AntiDeadlock"
    by (simp add: seek_loop_next [OF _ first] snd_after)
  then show ?thesis
    unfolding src
    by (simp add: Generate_def Generate_run_unfold Let_def base applyUppercase_def
        seekNonBaseLetterAndApply_def)
qed

text \<open>
  Claim C7 says that for a valid config accepted by \<open>NewGenerator\<close> and for
  every sequence of outputs of the entropy source, \<open>Generate\<close> never fails with
  the anti-deadlock error. It does: with length 2 and two uppercase letters,
  a source whose position draws are all 0 makes the first substitution at
  position 0, and then misses 100000 times in a row (with any digest
  function; the statement fixes one).
\<close>

theorem Generate_AntiDeadlock_counterexample:
  "valid_config \<lparr>length_f = 2, uppercaseCount = 2, digitCount = 0, specialCount = 0\<rparr>
   \<and> NewGenerator 2 2 0 0
       = Inr \<lparr>length_f = 2, uppercaseCount = 2, digitCount = 0, specialCount = 0\<rparr>
   \<and> Generate (constDigest 0)
         \<lparr>length_f = 2, uppercaseCount = 2, digitCount = 0, specialCount = 0\<rparr>
         (replicate 100003 (Some 0))
       = Inl AntiDeadlock"
proof (intro conjI)
  show "valid_config \<lparr>length_f = 2, uppercaseCount = 2, digitCount = 0, specialCount = 0\<rparr>"
    by (simp add: valid_config_def counts_fit_def)
  show "NewGenerator 2 2 0 0
       = Inr \<lparr>length_f = 2, uppercaseCount = 2, digitCount = 0, specialCount = 0\<rparr>"
    by (simp add: NewGenerator_def)
  show "Generate (constDigest 0)
         \<lparr>length_f = 2, uppercaseCount = 2, digitCount = 0, specialCount = 0\<rparr>
         (replicate 100003 (Some 0))
       = Inl AntiDeadlock"
    by (rule starved_run)
qed

text \<open>
  Claim C7, amended. For every valid config, when \<open>Generate\<close> fails with the
  anti-deadlock error, the last state of its run, which is the head of the
  substitution that gave up, is starved: the buffer held there has \<open>length\<close>
  bytes and still holds a base letter, and the 100000 position draws that the
  substitution makes from the entropy left there are all delivered and all
  land on bytes of that buffer that are not base letters.
\<close>

theorem Generate_AntiDeadlock_only_if_starved:
  assumes "valid_config g" and "Generate H g src = Inl AntiDeadlock"
  shows "fst (Generate_run H g src) \<noteq> []
         \<and> (case last (fst (Generate_run H g src)) of
               (ptr, rest) \<Rightarrow> length ptr = unat (length_f g) \<and> (\<exists>c \<in> set ptr. isLowercase c)
                               \<and> suffix rest src \<and> starved g ptr rest)"
proof -
  from assms(1) have "counts_fit g"
    by (simp add: valid_config_def)
  then show ?thesis
    using assms(2) by (rule Generate_AntiDeadlock_starved)
qed

theorem Generate_AntiDeadlock_only_if_starved_witness:
  "valid_config \<lparr>length_f = 2, uppercaseCount = 2, digitCount = 0, specialCount = 0\<rparr>
   \<and> Generate (constDigest 0)
         \<lparr>length_f = 2, uppercaseCount = 2, digitCount = 0, specialCount = 0\<rparr>
         (replicate 100003 (Some 0))
       = Inl AntiDeadlock
   \<and> (fst (Generate_run (constDigest 0)
             \<lparr>length_f = 2, uppercaseCount = 2, digitCount = 0, specialCount = 0\<rparr>
             (replicate 100003 (Some 0))) \<noteq> []
       \<and> (case last (fst (Generate_run (constDigest 0)
                           \<lparr>length_f = 2, uppercaseCount = 2, digitCount = 0, specialCount = 0\<rparr>
                           (replicate 100003 (Some 0)))) of
             (ptr, rest) \<Rightarrow>
               length ptr
                 = unat (length_f \<lparr>length_f = 2, uppercaseCount = 2, digitCount = 0,
                                    specialCount = 0 :: uint32\<rparr>)
               \<and> (\<exists>c \<in> set ptr. isLowercase c)
               \<and> suffix rest (replicate 100003 (Some 0))
               \<and> starved \<lparr>length_f = 2, uppercaseCount = 2, digitCount = 0, specialCount = 0\<rparr>
                     ptr rest))"
proof -
  have h1: "valid_config \<lparr>length_f = 2, uppercaseCount = 2, digitCount = 0, specialCount = 0\<rparr>"
    by (simp add: valid_config_def counts_fit_def)
  have h2: "Generate (constDigest 0)
         \<lparr>length_f = 2, uppercaseCount = 2, digitCount = 0, specialCount = 0\<rparr>
         (replicate 100003 (Some 0))
       = Inl AntiDeadlock"
    by (rule starved_run)
  show ?thesis
    by (rule conjI [OF h1 conjI [OF h2 Generate_AntiDeadlock_only_if_starved [OF h1 h2]]])
qed

subsection \<open>Ambiguous letters\<close>

lemma not_ambiguous_zero: "\<not> ambiguous 0"
  unfolding class_defs by simp

text \<open>Every buffer in a run of \<open>Generate\<close> keeps a property of bytes that the zero
  byte, the base letters and the bytes of the three other classes have.\<close>

lemma Generate_run_states_all:
  assumes "P 0" and "\<And>c. isLowercase c \<Longrightarrow> P c" and "\<And>c. isUppercase c \<Longrightarrow> P c"
    and "\<And>c. isDigit c \<Longrightarrow> P c" and "\<And>c. isSpecial c \<Longrightarrow> P c"
  shows "list_all (\<lambda>s. list_all P (fst s)) (fst (Generate_run H g src))"
proof -
  let ?ok = "list_all (\<lambda>s :: state. list_all P (fst s))"
  have held: "list_all P b" if "?ok h" "h \<noteq> []" "last h = (b, s)" for h b s
  proof -
    from that(2,3) have "(b, s) \<in> set h"
      by (metis last_in_set)
    with that(1) show ?thesis
      by (auto simp: list_all_iff)
  qed
  define r0 where "r0 = generateBase H g src"
  have z: "list_all P (replicate (unat (length_f g)) 0)"
    by (simp add: list_all_iff assms(1))
  have ok0: "?ok (fst r0)"
    unfolding r0_def generateBase_def using assms(2) z by (rule generateBase_loop_states_all)
  have ne0: "fst r0 \<noteq> []"
    unfolding r0_def generateBase_def by (rule generateBase_loop_states)
  show ?thesis
  proof (cases "snd r0")
    case (Inl e)
    with ok0 show ?thesis
      by (simp add: Generate_run_unfold Let_def r0_def)
  next
    case (Inr x0)
    obtain b0 s0 where st0: "snd r0 = Inr (b0, s0)"
      using Inr by (cases x0) simp
    from st0 have "last (fst r0) = (b0, s0)"
      unfolding r0_def generateBase_def by (rule generateBase_loop_last)
    with ok0 ne0 have p0: "list_all P b0"
      by (rule held)
    define r1 where "r1 = seek_loop g applyUppercase_fn 0 (uppercaseCount g) b0 s0"
    have ok1: "?ok (fst r1)"
      unfolding r1_def using closure_ok_upper assms(3) p0 by (rule seek_loop_states_all)
    have ne1: "fst r1 \<noteq> []"
      unfolding r1_def by (rule seek_loop_states(1))
    show ?thesis
    proof (cases "snd r1")
      case (Inl e)
      with ok0 ok1 st0 show ?thesis
        by (simp add: Generate_run_unfold Let_def r0_def r1_def applyUppercase_def
            seekNonBaseLetterAndApply_def)
    next
      case (Inr x1)
      obtain b1 s1 where st1: "snd r1 = Inr (b1, s1)"
        using Inr by (cases x1) simp
      from st1 have "last (fst r1) = (b1, s1)"
        unfolding r1_def by (rule seek_loop_last)
      with ok1 ne1 have p1: "list_all P b1"
        by (rule held)
      define r2 where "r2 = seek_loop g (applyDigits_fn H) 0 (digitCount g) b1 s1"
      have ok2: "?ok (fst r2)"
        unfolding r2_def using closure_ok_digit assms(4) p1 by (rule seek_loop_states_all)
      have ne2: "fst r2 \<noteq> []"
        unfolding r2_def by (rule seek_loop_states(1))
      show ?thesis
      proof (cases "snd r2")
        case (Inl e)
        with ok0 ok1 ok2 st0 st1 show ?thesis
          by (simp add: Generate_run_unfold Let_def r0_def r1_def r2_def applyUppercase_def
              applyDigits_def seekNonBaseLetterAndApply_def)
      next
        case (Inr x2)
        obtain b2 s2 where st2: "snd r2 = Inr (b2, s2)"
          using Inr by (cases x2) simp
        from st2 have "last (fst r2) = (b2, s2)"
          unfolding r2_def by (rule seek_loop_last)
        with ok2 ne2 have p2: "list_all P b2"
          by (rule held)
        define r3 where "r3 = seek_loop g (applySpecial_fn H) 0 (specialCount g) b2 s2"
        have ok3: "?ok (fst r3)"
          unfolding r3_def using closure_ok_special assms(5) p2 by (rule seek_loop_states_all)
        with ok0 ok1 ok2 st0 st1 st2 show ?thesis
          by (simp add: Generate_run_unfold Let_def r0_def r1_def r2_def r3_def
              applyUppercase_def applyDigits_def applySpecial_def
              seekNonBaseLetterAndApply_def)
      qed
    qed
  qed
qed

text \<open>The buffer \<open>Generate\<close> returns is the last buffer of its run.\<close>

lemma Generate_run_last:
  assumes "Generate H g src = Inr (b, src')"
  shows "fst (Generate_run H g src) \<noteq> [] \<and> last (fst (Generate_run H g src)) = (b, src')"
proof -
  from Generate_Inr_outcomes [OF assms] obtain b0 s0 b1 s1 b2 s2 where
    st: "snd (generateBase H g src) = Inr (b0, s0)"
        "snd (applyUppercase g b0 s0) = Inr (b1, s1)"
        "snd (applyDigits H g b1 s1) = Inr (b2, s2)"
        "snd (applySpecial H g b2 s2) = Inr (b, src')"
    by blast
  have ne: "fst (applySpecial H g b2 s2) \<noteq> []"
    by (simp add: applySpecial_def seekNonBaseLetterAndApply_def seek_loop_states(1))
  from st(4) have "last (fst (applySpecial H g b2 s2)) = (b, src')"
    unfolding applySpecial_def seekNonBaseLetterAndApply_def by (rule seek_loop_last)
  with ne st show ?thesis
    by (simp add: Generate_run_unfold Let_def)
qed

text \<open>
  Claim C10. At every point of a generation, and in every buffer \<open>Generate\<close>
  returns, no byte is one of the letters l, o, L, O: every buffer in the run
  of \<open>Generate\<close>, from the zero-filled buffer of \<open>generateBase\<close> through every
  iteration of the base fill and every substitution of the three passes, is
  free of the four letters, whether the run ends in a buffer or in an error,
  and the buffer returned is the last of them.
\<close>

theorem no_ambiguous_letters:
  "fst (Generate_run H g src) \<noteq> []
   \<and> (\<forall>(b, s) \<in> set (fst (Generate_run H g src)). no_ambiguous b)
   \<and> (\<forall>b src'. Generate H g src = Inr (b, src')
         \<longrightarrow> (b, src') \<in> set (fst (Generate_run H g src)) \<and> no_ambiguous b)"
proof -
  have ne: "fst (Generate_run H g src) \<noteq> []"
    by (simp add: Generate_run_unfold Let_def generateBase_def generateBase_loop_states
        split: sum.splits)
  have "list_all (\<lambda>s. list_all (\<lambda>c. \<not> ambiguous c) (fst s)) (fst (Generate_run H g src))"
    using not_ambiguous_zero isLowercase_classes(4) isUppercase_classes(4)
      isDigit_classes(4) isSpecial_classes(4)
    by (rule Generate_run_states_all)
  then have all: "\<forall>(b, s) \<in> set (fst (Generate_run H g src)). no_ambiguous b"
    by (auto simp: list_all_iff no_ambiguous_def)
  have "(b, src') \<in> set (fst (Generate_run H g src)) \<and> no_ambiguous b"
    if "Generate H g src = Inr (b, src')" for b src'
  proof -
    from Generate_run_last [OF that] have "(b, src') \<in> set (fst (Generate_run H g src))"
      by (metis last_in_set)
    with all show ?thesis
      by auto
  qed
  with ne all show ?thesis
    by blast
qed

theorem no_ambiguous_letters_witness:
  "Generate_run (constDigest 11) \<lparr>length_f = 3, uppercaseCount = 2, digitCount = 0, specialCount = 1\<rparr> [Some 0, Some 0, Some 1, Some 5, Some 4, Some 3, Some 2, Some 0]
     = ([([0, 0, 0], [Some 0, Some 0, Some 1, Some 5, Some 4, Some 3, Some 2, Some 0]),
           ([109, 0, 0], [Some 0, Some 1, Some 5, Some 4, Some 3, Some 2, Some 0]),
           ([109, 109, 0], [Some 1, Some 5, Some 4, Some 3, Some 2, Some 0]),
           ([109, 109, 109], [Some 4, Some 3, Some 2, Some 0]),
           ([109, 109, 109], [Some 4, Some 3, Some 2, Some 0]),
           ([109, 77, 109], [Some 3, Some 2, Some 0]),
           ([77, 77, 109], [Some 2, Some 0]),
           ([77, 77, 109], [Some 2, Some 0]),
           ([77, 77, 109], [Some 2, Some 0]),
           ([77, 77, 91], [])],
          Inr ([77, 77, 91], []))
   \<and> ([109, 77, 109], [Some 3, Some 2, Some 0])
       \<in> set (fst (Generate_run (constDigest 11) \<lparr>length_f = 3, uppercaseCount = 2, digitCount = 0, specialCount = 1\<rparr> [Some 0, Some 0, Some 1, Some 5, Some 4, Some 3, Some 2, Some 0]))
   \<and> no_ambiguous [109, 77, 109]
   \<and> Generate (constDigest 11) \<lparr>length_f = 3, uppercaseCount = 2, digitCount = 0, specialCount = 1\<rparr> [Some 0, Some 0, Some 1, Some 5, Some 4, Some 3, Some 2, Some 0] = Inr ([77, 77, 91], [])
   \<and> no_ambiguous [77, 77, 91]"
proof -
  have run: "Generate_run (constDigest 11) \<lparr>length_f = 3, uppercaseCount = 2, digitCount = 0, specialCount = 1\<rparr> [Some 0, Some 0, Some 1, Some 5, Some 4, Some 3, Some 2, Some 0]
     = ([([0, 0, 0], [Some 0, Some 0, Some 1, Some 5, Some 4, Some 3, Some 2, Some 0]),
           ([109, 0, 0], [Some 0, Some 1, Some 5, Some 4, Some 3, Some 2, Some 0]),
           ([109, 109, 0], [Some 1, Some 5, Some 4, Some 3, Some 2, Some 0]),
           ([109, 109, 109], [Some 4, Some 3, Some 2, Some 0]),
           ([109, 109, 109], [Some 4, Some 3, Some 2, Some 0]),
           ([109, 77, 109], [Some 3, Some 2, Some 0]),
           ([77, 77, 109], [Some 2, Some 0]),
           ([77, 77, 109], [Some 2, Some 0]),
           ([77, 77, 109], [Some 2, Some 0]),
           ([77, 77, 91], [])],
          Inr ([77, 77, 91], []))"
    by (simp add: eval_simps cong: eval_congs)
  have mem: "([109, 77, 109], [Some 3, Some 2, Some 0])
       \<in> set (fst (Generate_run (constDigest 11) \<lparr>length_f = 3, uppercaseCount = 2, digitCount = 0, specialCount = 1\<rparr> [Some 0, Some 0, Some 1, Some 5, Some 4, Some 3, Some 2, Some 0]))"
    unfolding run by simp
  have out: "Generate (constDigest 11) \<lparr>length_f = 3, uppercaseCount = 2, digitCount = 0, specialCount = 1\<rparr> [Some 0, Some 0, Some 1, Some 5, Some 4, Some 3, Some 2, Some 0] = Inr ([77, 77, 91], [])"
    unfolding Generate_def run by simp
  note t = no_ambiguous_letters [of "constDigest 11" "\<lparr>length_f = 3, uppercaseCount = 2, digitCount = 0, specialCount = 1\<rparr>" "[Some 0, Some 0, Some 1, Some 5, Some 4, Some 3, Some 2, Some 0]"]
  from t mem have held: "no_ambiguous [109, 77, 109]"
    by blast
  from t out have returned: "no_ambiguous [77, 77, 91]"
    by blast
  from run mem held out returned show ?thesis
    by (intro conjI)
qed

subsection \<open>The distribution of a random character\<close>

lemma whitened_constDigest: "secureRandomByte (constDigest b) (Some 0 # rest) = Inr (b, rest)"
proof -
  have "unat ((b :: byte) mod 64) < 64"
    by (simp add: unat_mod)
  then show ?thesis
    by (simp add: secureRandomByte_def rand_Int_def constDigest_def)
qed

lemma secureRandomChar_constDigest:
  "secureRandomChar (constDigest b) charset [Some 0] =
     (if (of_nat (length charset) :: byte) = 0 then Inl RuntimePanic
      else Inr (charset ! unat (b mod of_nat (length charset)), []))"
  by (simp add: secureRandomChar_def whitened_constDigest)

lemma upt_0_numeral: "[0..<numeral n] = 0 # [Suc 0..<numeral n]"
  by (simp add: upt_rec)

lemma upt_Suc0_numeral:
  "[Suc 0..<numeral n] = (if Suc 0 < numeral n then Suc 0 # [2..<numeral n] else [])"
  by (simp add: upt_rec numeral_2_eq_2)

lemmas producers_eval = producers_def secureRandomChar_constDigest byteValues_def
  letterCharset_list digitCharset_list specialCharset_list

text \<open>
  Claim C8 says that over the 256 values of the whitened byte every member
  of a charset is returned for the same number of values. The reduction
  \<open>b % len(charset)\<close> does not give that, since 256 is a multiple of none of
  24, 10 and 18: the letter a is returned on 11 byte values and z on 10, the
  digit 0 on 26 and 9 on 25, the special character \<open>~\<close> on 15 and \<open>.\<close> on 14.
\<close>

theorem secureRandomChar_modulo_bias:
  "producers letterCharset (of_char CHR ''a'') = 11
   \<and> producers letterCharset (of_char CHR ''z'') = 10
   \<and> producers digitCharset (of_char CHR ''0'') = 26
   \<and> producers digitCharset (of_char CHR ''9'') = 25
   \<and> producers specialCharset (of_char CHR ''~'') = 15
   \<and> producers specialCharset (of_char CHR ''.'') = 14"
proof (intro conjI)
  show "producers letterCharset (of_char CHR ''a'') = 11"
    unfolding producers_eval
    by (simp add: upt_0_numeral upt_Suc0_numeral upt_rec_numeral del: upt_Suc)
  show "producers letterCharset (of_char CHR ''z'') = 10"
    unfolding producers_eval
    by (simp add: upt_0_numeral upt_Suc0_numeral upt_rec_numeral del: upt_Suc)
  show "producers digitCharset (of_char CHR ''0'') = 26"
    unfolding producers_eval
    by (simp add: upt_0_numeral upt_Suc0_numeral upt_rec_numeral del: upt_Suc)
  show "producers digitCharset (of_char CHR ''9'') = 25"
    unfolding producers_eval
    by (simp add: upt_0_numeral upt_Suc0_numeral upt_rec_numeral del: upt_Suc)
  show "producers specialCharset (of_char CHR ''~'') = 15"
    unfolding producers_eval
    by (simp add: upt_0_numeral upt_Suc0_numeral upt_rec_numeral del: upt_Suc)
  show "producers specialCharset (of_char CHR ''.'') = 14"
    unfolding producers_eval
    by (simp add: upt_0_numeral upt_Suc0_numeral upt_rec_numeral del: upt_Suc)
qed

end
